theory Spec2Isabelle
  imports Main
begin

section \<open>The mwapi client: data model\<close>

text \<open>
  A shallow embedding of the Go package \<open>mwapi\<close> (params.go, client.go, tokens.go,
  auth.go, errors.go, types.go). Strings are byte lists. The model is sequential: the
  mutex \<open>mu\<close> and the singleflight group \<open>_sf\<close> of the client are not represented, a
  singleflight call runs its function once.
\<close>

subsection \<open>url.Values\<close>

text \<open>
  \<open>url.Values\<close> is \<open>map[string][]string\<close>. The loops of the package over such a map treat
  every key on its own, so they are written key by key below.
\<close>

type_synonym Values = "string \<rightharpoonup> string list"

definition values_Get :: "Values \<Rightarrow> string \<Rightarrow> string" where
  "values_Get v k = (case v k of None \<Rightarrow> [] | Some [] \<Rightarrow> [] | Some (x # xs) \<Rightarrow> x)"

definition values_Set :: "Values \<Rightarrow> string \<Rightarrow> string \<Rightarrow> Values" where
  "values_Set v k x = v(k \<mapsto> [x])"

definition values_Del :: "Values \<Rightarrow> string \<Rightarrow> Values" where
  "values_Del v k = v(k := None)"

definition values_Encode :: "Values \<Rightarrow> Values" where
  \<comment> \<open>What \<open>Encode\<close> puts on the wire, read back as a form: a key with no value writes
      nothing.\<close>
  "values_Encode v = (\<lambda>k. case v k of None \<Rightarrow> None | Some [] \<Rightarrow> None | Some (x # xs) \<Rightarrow> Some (x # xs))"

fun join_pipe :: "string list \<Rightarrow> string" where
  "join_pipe [] = []"
| "join_pipe [x] = x"
| "join_pipe (x # y # ys) = x @ ''|'' @ join_pipe (y # ys)"

subsection \<open>Decimal rendering (strconv.Itoa, FormatInt, FormatUint)\<close>

definition digit_char :: "nat \<Rightarrow> char" where
  "digit_char d = ''0123456789'' ! d"

fun nat_decimal :: "nat \<Rightarrow> string" where
  "nat_decimal n = (if n < 10 then [digit_char n] else nat_decimal (n div 10) @ [digit_char (n mod 10)])"

definition int_decimal :: "int \<Rightarrow> string" where
  "int_decimal i = (if i < 0 then ''-'' @ nat_decimal (nat (- i)) else nat_decimal (nat i))"

subsection \<open>ASCII case folding\<close>

definition lower_char :: "char \<Rightarrow> char" where
  "lower_char c =
     (case map_of (zip ''ABCDEFGHIJKLMNOPQRSTUVWXYZ'' ''abcdefghijklmnopqrstuvwxyz'') c of
        Some l \<Rightarrow> l
      | None \<Rightarrow> c)"

definition isASCII :: "string \<Rightarrow> bool" where
  \<comment> \<open>No byte of the string is \<open>utf8.RuneSelf\<close> (0x80) or above.\<close>
  "isASCII s = list_all (\<lambda>ch. \<not> digit7 ch) s"

subsection \<open>Parameter values\<close>

text \<open>
  An \<open>io.Reader\<close> is a stream with a read position. \<open>Stream h\<close> is a reader the caller
  owns, its unread bytes are kept in the store of the world under the handle \<open>h\<close>.
  \<open>Fresh bs\<close> is the \<open>bytes.Reader\<close> that \<open>addAny\<close> creates over a byte slice: it belongs
  to the normalized parameters, \<open>bs\<close> are its unread bytes.
\<close>

datatype Reader = Stream nat | Fresh string

record File =
  Filename :: string
  ContentType :: string
  Reader :: Reader

record fileField =
  Field_name :: string
  File :: File

record normalizedParams =
  Values :: Values
  Files :: "fileField list"

text \<open>
  The dynamic kinds a value of a \<open>map[string]any\<close> can have, in the order of the type
  switch of \<open>addAny\<close>. Renderings made by the standard library (\<open>fmt.Sprint\<close>,
  \<open>String()\<close>, \<open>strconv.FormatFloat\<close>) are carried by the value.
\<close>

datatype Elem = ENil | EVal string

datatype Any =
    ANil
  | AString string
  | ABytes string
  | AFile File
  | AFilePtr "File option"
  | AReader Reader "string option"
  | ABool bool
  | AStrings "string list"
  | AAnys "Elem list"
  | AStringer string
  | AInt int
  | AInt64 int
  | AFloat64 string
  | AKindInt int
  | AKindUint nat
  | AKindFloat string
  | AKindSlice "string list"
  | AOther string

datatype Params =
    PNil
  | PValues Values
  | PMapString "string \<rightharpoonup> string"
  | PMapAny "(string \<times> Any) list"
  | PNilPointer
  | PStruct "string + Values"
  | PUnsupported string

subsection \<open>Errors (errors.go and the standard error wrappers)\<close>

record MWError =
  Code :: string
  Info :: string
  Text_field :: string

record LoginResult =
  Result :: string
  LgUserID :: int
  LgName :: string
  Reason :: string

text \<open>
  \<open>Raw\<close> is the body of a response. The package reads it only through
  \<open>json.Unmarshal\<close> into two fixed shapes, so a body is given by what these two
  decodings return: the map at \<open>query.tokens\<close> and the object at \<open>login\<close>, or the
  decoder's error. The header, the warnings and the continuation map of a response are
  not read by the engine and are left out.
\<close>

record RawBody =
  query_tokens :: "string + (string \<rightharpoonup> string)"
  login_object :: "string + LoginResult"

record Response =
  StatusCode :: int
  Error :: "MWError option"
  Errors :: "MWError list"
  Raw :: RawBody

record MediaWikiApiError =
  ErrCode :: string
  Message :: string
  HTTPStatus :: int
  ErrList :: "MWError list"
  ErrResponse :: "Response option"

text \<open>
  The error values that occur: a failure of the HTTP transport or of reading the body
  (a cancelled or expired context is one of these), a decoding failure, an unsupported
  parameter type, an error made by \<open>fmt.Errorf\<close> without and with \<open>%w\<close>, a
  \<open>*MediaWikiApiError\<close>, and \<open>errors.Join\<close> of two errors.
\<close>

datatype Err =
    Transport string
  | ReadFailure string
  | JsonError string
  | Unsupported string
  | Plain string
  | ApiError MediaWikiApiError
  | Wrap string Err
  | Join Err Err

fun IsMediaWikiApiError :: "Err \<Rightarrow> MediaWikiApiError option" where
  \<comment> \<open>\<open>errors.As\<close>: the first \<open>*MediaWikiApiError\<close> in the tree of the error, depth first.\<close>
  "IsMediaWikiApiError (ApiError a) = Some a"
| "IsMediaWikiApiError (Wrap m e) = IsMediaWikiApiError e"
| "IsMediaWikiApiError (Join e1 e2) =
     (case IsMediaWikiApiError e1 of Some a \<Rightarrow> Some a | None \<Rightarrow> IsMediaWikiApiError e2)"
| "IsMediaWikiApiError e = None"

fun Error_text :: "Err \<Rightarrow> string" where
  \<comment> \<open>The method \<open>Error()\<close>: of \<open>*MediaWikiApiError\<close> as in errors.go, of the wrappers as
      \<open>fmt.Errorf\<close> and \<open>errors.Join\<close> build it.\<close>
  "Error_text (Transport s) = s"
| "Error_text (ReadFailure s) = s"
| "Error_text (JsonError s) = s"
| "Error_text (Unsupported s) = s"
| "Error_text (Plain s) = s"
| "Error_text (ApiError a) =
     (if ErrCode a = [] then Message a
      else if Message a = [] then ErrCode a
      else ErrCode a @ '': '' @ Message a)"
| "Error_text (Wrap m e) = m @ '': '' @ Error_text e"
| "Error_text (Join e1 e2) = Error_text e1 @ [CHR 0x0A] @ Error_text e2"

subsection \<open>Parameter normalization (params.go)\<close>

definition setDefaultIfMissing :: "Values \<Rightarrow> string \<Rightarrow> string \<Rightarrow> Values" where
  "setDefaultIfMissing v key val = (if values_Get v key = [] then values_Set v key val else v)"

definition set_field :: "normalizedParams \<Rightarrow> string \<Rightarrow> string \<Rightarrow> normalizedParams" where
  "set_field np key x = np\<lparr>Values := values_Set (Values np) key x\<rparr>"

definition add_file :: "normalizedParams \<Rightarrow> string \<Rightarrow> File \<Rightarrow> normalizedParams" where
  "add_file np key f = np\<lparr>Files := Files np @ [\<lparr>Field_name = key, File = f\<rparr>]\<rparr>"

fun sprint_elems :: "Elem list \<Rightarrow> string list" where
  "sprint_elems [] = []"
| "sprint_elems (ENil # es) = sprint_elems es"
| "sprint_elems (EVal s # es) = s # sprint_elems es"

text \<open>
  \<open>addAny\<close> returns nil on every path, so the model returns the updated parameters only.
\<close>

fun addAny :: "normalizedParams \<Rightarrow> string \<Rightarrow> Any \<Rightarrow> normalizedParams" where
  "addAny np key ANil = np"
| "addAny np key (AString x) = set_field np key x"
| "addAny np key (ABytes x) =
     add_file np key \<lparr>Filename = key, ContentType = [], Reader = Fresh x\<rparr>"
| "addAny np key (AFile x) = add_file np key x"
| "addAny np key (AFilePtr None) = np"
| "addAny np key (AFilePtr (Some x)) = add_file np key x"
| "addAny np key (AReader x name) =
     add_file np key
       \<lparr>Filename = (case name of None \<Rightarrow> key | Some n \<Rightarrow> if n \<noteq> [] then n else key),
        ContentType = [], Reader = x\<rparr>"
| "addAny np key (ABool x) = (if x then set_field np key ''1'' else np)"
| "addAny np key (AStrings x) = (if x = [] then np else set_field np key (join_pipe x))"
| "addAny np key (AAnys x) =
     (if x = [] then np
      else let parts = sprint_elems x
           in if parts \<noteq> [] then set_field np key (join_pipe parts) else np)"
| "addAny np key (AStringer x) = set_field np key x"
| "addAny np key (AInt x) = set_field np key (int_decimal x)"
| "addAny np key (AInt64 x) = set_field np key (int_decimal x)"
| "addAny np key (AFloat64 x) = set_field np key x"
| "addAny np key (AKindInt x) = set_field np key (int_decimal x)"
| "addAny np key (AKindUint x) = set_field np key (nat_decimal x)"
| "addAny np key (AKindFloat x) = set_field np key x"
| "addAny np key (AKindSlice parts) =
     (if parts \<noteq> [] then set_field np key (join_pipe parts) else np)"
| "addAny np key (AOther x) = set_field np key x"

fun addAll :: "normalizedParams \<Rightarrow> (string \<times> Any) list \<Rightarrow> normalizedParams" where
  \<comment> \<open>\<open>for k, val := range v\<close>, the list being the map in the order of the iteration.\<close>
  "addAll np [] = np"
| "addAll np ((k, val) # rest) = addAll (addAny np k val) rest"

definition joined_values :: "Values \<Rightarrow> Values" where
  \<comment> \<open>\<open>np.Values.Set(k, strings.Join(vs, "|"))\<close> for every key with a value.\<close>
  "joined_values v = (\<lambda>k. case v k of None \<Rightarrow> None | Some [] \<Rightarrow> None | Some (x # xs) \<Rightarrow> Some [join_pipe (x # xs)])"

fun collectParams :: "Params \<Rightarrow> Err + normalizedParams" where
  "collectParams PNil = Inr \<lparr>Values = Map.empty, Files = []\<rparr>"
| "collectParams (PValues v) = Inr \<lparr>Values = joined_values v, Files = []\<rparr>"
| "collectParams (PMapString m) = Inr \<lparr>Values = (\<lambda>k. map_option (\<lambda>x. [x]) (m k)), Files = []\<rparr>"
| "collectParams (PMapAny kvs) = Inr (addAll \<lparr>Values = Map.empty, Files = []\<rparr> kvs)"
| "collectParams PNilPointer = Inr \<lparr>Values = Map.empty, Files = []\<rparr>"
| "collectParams (PStruct (Inl e)) = Inl (Plain e)"
| "collectParams (PStruct (Inr v)) = Inr \<lparr>Values = joined_values v, Files = []\<rparr>"
| "collectParams (PUnsupported t) = Inl (Unsupported (''unsupported params type: '' @ t))"

definition defaults :: "Values \<Rightarrow> Values" where
  "defaults v =
     setDefaultIfMissing
       (setDefaultIfMissing
         (setDefaultIfMissing
           (setDefaultIfMissing v ''action'' ''query'')
           ''format'' ''json'')
         ''formatversion'' ''2'')
       ''errorformat'' ''plaintext''"

definition normalizeParams :: "Params \<Rightarrow> Err + normalizedParams" where
  "normalizeParams p =
     (case collectParams p of
        Inl e \<Rightarrow> Inl e
      | Inr np \<Rightarrow> Inr (np\<lparr>Values := defaults (Values np)\<rparr>))"

section \<open>The client and its environment\<close>

subsection \<open>Requests, replies and the world\<close>

datatype Method = GET | POST

record Part =
  part_field :: string
  part_filename :: string
  part_content :: string

text \<open>
  The body of a request: none (GET), a urlencoded form, or a multipart form with its
  fields and file parts. The content type of the request follows from the body.
\<close>

datatype Body = NoBody | Urlencoded Values | Multipart Values "Part list"

record Request =
  httpMethod :: Method
  query :: Values
  body :: Body
  userAgent :: string

text \<open>
  What \<open>hc.Do\<close> and the read of the body give back: a transport failure (a cancelled or
  expired context included), a failure while reading the body, or a response.
\<close>

datatype Reply = NetFail string | BodyFail string | Http Response

text \<open>The state of a caller's stream: its unread bytes, or the error its next read returns.\<close>

datatype StreamState = Data string | Broken string

text \<open>
  The world is the \<open>Client\<close> struct (the query of the endpoint, the user agent, the four
  settings, the token cache, the login state, and the keys of the singleflight group
  \<open>_sf\<close> that have a call in flight) together with what the client shares with its
  surroundings: the \<open>map[string]any\<close> objects of the heap (a map is a reference in Go,
  an address is an index of the list), the streams of the caller, and the exchanges
  with the server so far.

  The surroundings that no operation changes are an \<open>Env\<close>. Its \<open>server\<close> is the HTTP
  client, its cookie jar and the server behind it: one function from the exchanges so
  far and the request to the reply. Its \<open>toLowerUnicode\<close> is the standard library at work
  on a string with a byte outside ASCII (\<open>strings.Map(unicode.ToLower, s)\<close>, with the
  tables of package \<open>unicode\<close>).
\<close>

record World =
  endpoint_query :: Values
  ua :: string
  throwOnApiError :: bool
  keepLogin :: bool
  reloginRetry :: int
  tokenRetry :: int
  tokens :: "string \<rightharpoonup> string"
  loggedInUser :: string
  loginUser :: string
  loginPass :: string
  flights :: "string list"
  heap :: "(string \<times> Any) list list"
  streams :: "nat \<Rightarrow> StreamState"
  exchanges :: "(Request \<times> Reply) list"

record Env =
  server :: "(Request \<times> Reply) list \<Rightarrow> Request \<Rightarrow> Reply"
  toLowerUnicode :: "string \<Rightarrow> string"

type_synonym Result = "Response option \<times> Err option"

subsection \<open>Case folding and the classification of error codes (errors.go)\<close>

definition ToLower :: "Env \<Rightarrow> string \<Rightarrow> string" where
  \<comment> \<open>\<open>strings.ToLower\<close>: byte by byte on an ASCII string, the Unicode mapping otherwise.\<close>
  "ToLower env s = (if isASCII s then map lower_char s else toLowerUnicode env s)"

definition isTokenErrorCode :: "Env \<Rightarrow> string \<Rightarrow> bool" where
  "isTokenErrorCode env code =
     (let c = ToLower env code in c = ''badtoken'' \<or> c = ''notoken'' \<or> c = ''needtoken'' \<or> c = ''wrongtoken'')"

definition isAssertUserFailedCode :: "Env \<Rightarrow> string \<Rightarrow> bool" where
  "isAssertUserFailedCode env code =
     (let c = ToLower env code in c = ''assertuserfailed'' \<or> c = ''assertnameduserfailed'')"

subsection \<open>Building a request (client.go: buildRequest, mergeQuery)\<close>

definition mergeQuery :: "Values \<Rightarrow> Values \<Rightarrow> string set option \<Rightarrow> Values" where
  "mergeQuery base overlay omitKeys =
     (\<lambda>k. if (case omitKeys of None \<Rightarrow> False | Some ks \<Rightarrow> k \<in> ks) then None
          else (case overlay k of
                  Some (x # xs) \<Rightarrow> Some [x]
                | _ \<Rightarrow> (case base k of Some (y # ys) \<Rightarrow> Some (y # ys) | _ \<Rightarrow> None)))"

definition read_all :: "Reader \<Rightarrow> (nat \<Rightarrow> StreamState) \<Rightarrow> (Err + string) \<times> Reader \<times> (nat \<Rightarrow> StreamState)" where
  \<comment> \<open>\<open>io.Copy(fw, r)\<close>: the unread bytes of the reader, which is at its end afterwards.\<close>
  "read_all r st =
     (case r of
        Fresh bs \<Rightarrow> (Inr bs, Fresh [], st)
      | Stream h \<Rightarrow>
          (case st h of
             Data bs \<Rightarrow> (Inr bs, Stream h, st(h := Data []))
           | Broken e \<Rightarrow> (Inl (ReadFailure e), Stream h, st)))"

fun copy_files :: "fileField list \<Rightarrow> (nat \<Rightarrow> StreamState) \<Rightarrow> (Err + Part list) \<times> fileField list \<times> (nat \<Rightarrow> StreamState)" where
  "copy_files [] st = (Inr [], [], st)"
| "copy_files (f # fs) st =
     (case read_all (Reader (File f)) st of
        (Inl e, r', st') \<Rightarrow> (Inl e, f\<lparr>File := (File f)\<lparr>Reader := r'\<rparr>\<rparr> # fs, st')
      | (Inr content, r', st') \<Rightarrow>
          (case copy_files fs st' of
             (Inl e, fs', st'') \<Rightarrow> (Inl e, f\<lparr>File := (File f)\<lparr>Reader := r'\<rparr>\<rparr> # fs', st'')
           | (Inr ps, fs', st'') \<Rightarrow>
               (Inr (\<lparr>part_field = Field_name f,
                      part_filename = (if Filename (File f) = [] then Field_name f else Filename (File f)),
                      part_content = content\<rparr> # ps),
                f\<lparr>File := (File f)\<lparr>Reader := r'\<rparr>\<rparr> # fs', st'')))"

definition first_values :: "Values \<Rightarrow> Values" where
  \<comment> \<open>\<open>w.WriteField(k, vs[0])\<close> for every key with a value.\<close>
  "first_values v = (\<lambda>k. case v k of None \<Rightarrow> None | Some [] \<Rightarrow> None | Some (x # xs) \<Rightarrow> Some [x])"

text \<open>
  \<open>buildRequest\<close> also returns the parameters and the streams as the reads of the
  attachments leave them: the readers are shared with the caller of \<open>buildRequest\<close>.
\<close>

definition buildRequest :: "'a World_scheme \<Rightarrow> Method \<Rightarrow> normalizedParams \<Rightarrow> (Err + Request) \<times> normalizedParams \<times> (nat \<Rightarrow> StreamState)" where
  "buildRequest c m np =
     (let baseQuery = endpoint_query c in
      if m = GET then
        (Inr \<lparr>httpMethod = GET, query = values_Encode (mergeQuery baseQuery (Values np) None),
              body = NoBody, userAgent = ua c\<rparr>, np, streams c)
      else
        (let q = values_Encode (\<lambda>k. case Values np k of Some vs \<Rightarrow> None | None \<Rightarrow> baseQuery k) in
         if Files np = [] then
           (Inr \<lparr>httpMethod = POST, query = q, body = Urlencoded (values_Encode (Values np)),
                 userAgent = ua c\<rparr>, np, streams c)
         else
           (case copy_files (Files np) (streams c) of
              (Inl e, fs', st') \<Rightarrow> (Inl e, np\<lparr>Files := fs'\<rparr>, st')
            | (Inr ps, fs', st') \<Rightarrow>
                (Inr \<lparr>httpMethod = POST, query = q, body = Multipart (first_values (Values np)) ps,
                      userAgent = ua c\<rparr>, np\<lparr>Files := fs'\<rparr>, st'))))"

subsection \<open>One round trip (client.go: doOnce, responseApiError)\<close>

definition firstNonEmpty :: "string list \<Rightarrow> string" where
  "firstNonEmpty ss = (case filter (\<lambda>s. s \<noteq> []) ss of [] \<Rightarrow> [] | s # rest \<Rightarrow> s)"

definition responseErrorCode :: "Response option \<Rightarrow> string" where
  "responseErrorCode resp =
     (case resp of
        None \<Rightarrow> []
      | Some r \<Rightarrow>
          (case Error r of
             Some e \<Rightarrow> Code e
           | None \<Rightarrow> (case Errors r of e # es \<Rightarrow> Code e | [] \<Rightarrow> [])))"

definition responseApiError :: "Response \<Rightarrow> MediaWikiApiError option" where
  "responseApiError r =
     (if Error r = None \<and> Errors r = [] then None
      else
        (let code1 = (case Error r of Some e \<Rightarrow> Code e | None \<Rightarrow> []);
             msg1 = (case Error r of Some e \<Rightarrow> firstNonEmpty [Info e, Text_field e] | None \<Rightarrow> []);
             errs1 = (case Error r of Some e \<Rightarrow> [e] | None \<Rightarrow> []);
             code2 = (case Errors r of e # es \<Rightarrow> (if code1 = [] then Code e else code1) | [] \<Rightarrow> code1);
             msg2 = (case Errors r of e # es \<Rightarrow> (if msg1 = [] then firstNonEmpty [Info e, Text_field e] else msg1) | [] \<Rightarrow> msg1);
             msg3 = (if msg2 = [] then ''MediaWiki API error'' else msg2)
         in Some \<lparr>ErrCode = code2, Message = msg3, HTTPStatus = StatusCode r,
                  ErrList = errs1 @ Errors r, ErrResponse = Some r\<rparr>))"

definition doOnce :: "Env \<Rightarrow> Method \<Rightarrow> normalizedParams \<Rightarrow> 'a World_scheme \<Rightarrow> Result \<times> normalizedParams \<times> 'a World_scheme" where
  "doOnce env m np c =
     (case buildRequest c m np of
        (Inl e, np', st') \<Rightarrow> ((None, Some e), np', c\<lparr>streams := st'\<rparr>)
      | (Inr req, np', st') \<Rightarrow>
          (let reply = server env (exchanges c) req;
               c' = c\<lparr>streams := st', exchanges := exchanges c @ [(req, reply)]\<rparr>
           in case reply of
                NetFail e \<Rightarrow> ((None, Some (Transport e)), np', c')
              | BodyFail e \<Rightarrow> ((None, Some (ReadFailure e)), np', c')
              | Http resp \<Rightarrow>
                  (if throwOnApiError c
                   then (case responseApiError resp of
                           Some apiErr \<Rightarrow> ((Some resp, Some (ApiError apiErr)), np', c')
                         | None \<Rightarrow> ((Some resp, None), np', c'))
                   else ((Some resp, None), np', c'))))"

subsection \<open>Requests with keep-login and relogin (client.go: do, Get, Post)\<close>

text \<open>
  \<open>do\<close> reaches \<open>Relogin\<close>, which reaches \<open>Login\<close>, \<open>GetToken\<close> and \<open>Post\<close>, which is \<open>do\<close>
  again; against a server that answers every request with an assertion failure this
  never returns. The operations are therefore written over the operations they call
  (\<open>relogin\<close>, \<open>post\<close>, \<open>getTok\<close>), whose result \<open>None\<close> stands for a call that does not
  return (it recurses for ever, waits for itself, or panics), and are tied together
  below by a bound on the depth of nested relogins.
\<close>

record doOptions =
  skipAssert :: bool
  skipRelogin :: bool

fun Contains :: "string \<Rightarrow> string \<Rightarrow> bool" where
  "Contains [] sub = (sub = [])"
| "Contains (c # s) sub = (take (length sub) (c # s) = sub \<or> Contains s sub)"

definition shouldSkipAssert :: "Env \<Rightarrow> doOptions \<Rightarrow> normalizedParams \<Rightarrow> bool" where
  "shouldSkipAssert env opt np =
     (let action = ToLower env (values_Get (Values np) ''action'');
          meta = ToLower env (values_Get (Values np) ''meta'');
          typ = ToLower env (values_Get (Values np) ''type'')
      in skipAssert opt \<or> action = ''login''
         \<or> (action = ''query'' \<and> meta = ''tokens'' \<and> Contains typ ''login''))"

definition injectAssert :: "Env \<Rightarrow> 'a World_scheme \<Rightarrow> doOptions \<Rightarrow> normalizedParams \<Rightarrow> normalizedParams" where
  \<comment> \<open>Keep-login: inject assertuser=username, but never for login or login-token.\<close>
  "injectAssert env c opt np =
     (if keepLogin c \<and> \<not> shouldSkipAssert env opt np
      then (let user = loggedInUser c
            in if user \<noteq> [] \<and> values_Get (Values np) ''assertuser'' = []
               then set_field np ''assertuser'' user else np)
      else np)"

definition assertFailed :: "string \<Rightarrow> Response \<Rightarrow> Err" where
  "assertFailed code resp =
     ApiError \<lparr>ErrCode = code, Message = ''assertuser failed'', HTTPStatus = StatusCode resp,
               ErrList = [], ErrResponse = Some resp\<rparr>"

definition isAssertError :: "Env \<Rightarrow> Err \<Rightarrow> bool" where
  \<comment> \<open>The negation of \<open>!ok || e.Code == "" || !isAssertUserFailedCode(e.Code)\<close>.\<close>
  "isAssertError env err =
     (case IsMediaWikiApiError err of
        None \<Rightarrow> False
      | Some e \<Rightarrow> ErrCode e \<noteq> [] \<and> isAssertUserFailedCode env (ErrCode e))"

function do_loop :: "Env \<Rightarrow> ('a World_scheme \<Rightarrow> (Err option \<times> 'a World_scheme) option) \<Rightarrow> Method \<Rightarrow> int \<Rightarrow> int
    \<Rightarrow> normalizedParams \<Rightarrow> Err option \<Rightarrow> 'a World_scheme \<Rightarrow> (Result \<times> 'a World_scheme) option" where
  "do_loop env relogin m maxRelogin attempt np lastErr c =
     (if attempt \<le> maxRelogin then
        (case doOnce env m np c of
           ((None, None), np', c1) \<Rightarrow> Some ((None, None), c1)
         | ((Some resp, None), np', c1) \<Rightarrow>
             (let code = responseErrorCode (Some resp) in
              if isAssertUserFailedCode env code \<and> attempt < maxRelogin then
                (case relogin c1 of
                   None \<Rightarrow> None
                 | Some (Some err2, c2) \<Rightarrow> Some ((Some resp, Some (Join (assertFailed code resp) err2)), c2)
                 | Some (None, c2) \<Rightarrow>
                     do_loop env relogin m maxRelogin (attempt + 1) np' (Some (assertFailed code resp)) c2)
              else if isAssertUserFailedCode env code \<and> attempt = maxRelogin then
                Some ((Some resp, Some (assertFailed code resp)), c1)
              else Some ((Some resp, None), c1))
         | ((resp, Some err), np', c1) \<Rightarrow>
             (if \<not> isAssertError env err then Some ((resp, Some err), c1)
              else if attempt = maxRelogin then Some ((resp, Some err), c1)
              else (case relogin c1 of
                      None \<Rightarrow> None
                    | Some (Some err2, c2) \<Rightarrow> Some ((resp, Some (Join err err2)), c2)
                    | Some (None, c2) \<Rightarrow>
                        do_loop env relogin m maxRelogin (attempt + 1) np' (Some err) c2)))
      else Some ((None, lastErr), c))"
  by pat_completeness auto
termination
  by (relation "measure (\<lambda>(env, relogin, m, maxRelogin, attempt, np, lastErr, c). nat (maxRelogin + 1 - attempt))") auto

definition do :: "Env \<Rightarrow> ('a World_scheme \<Rightarrow> (Err option \<times> 'a World_scheme) option) \<Rightarrow> Method \<Rightarrow> Params \<Rightarrow> doOptions
    \<Rightarrow> 'a World_scheme \<Rightarrow> (Result \<times> 'a World_scheme) option" where
  "do env relogin m p opt c =
     (case normalizeParams p of
        Inl err \<Rightarrow> Some ((None, Some err), c)
      | Inr np \<Rightarrow>
          do_loop env relogin m (if skipRelogin opt then 0 else reloginRetry c) 0
            (injectAssert env c opt np) None c)"

definition Get_with :: "Env \<Rightarrow> ('a World_scheme \<Rightarrow> (Err option \<times> 'a World_scheme) option) \<Rightarrow> Params
    \<Rightarrow> 'a World_scheme \<Rightarrow> (Result \<times> 'a World_scheme) option" where
  "Get_with env relogin p = do env relogin GET p \<lparr>skipAssert = False, skipRelogin = False\<rparr>"

definition Post_with :: "Env \<Rightarrow> ('a World_scheme \<Rightarrow> (Err option \<times> 'a World_scheme) option) \<Rightarrow> Params
    \<Rightarrow> 'a World_scheme \<Rightarrow> (Result \<times> 'a World_scheme) option" where
  "Post_with env relogin p = do env relogin POST p \<lparr>skipAssert = False, skipRelogin = False\<rparr>"

subsection \<open>The token cache (tokens.go)\<close>

definition InvalidateToken :: "string \<Rightarrow> 'a World_scheme \<Rightarrow> 'a World_scheme" where
  "InvalidateToken tokenType c = c\<lparr>tokens := (tokens c)(tokenType := None)\<rparr>"

definition InvalidateAllTokens :: "'a World_scheme \<Rightarrow> 'a World_scheme" where
  "InvalidateAllTokens c = c\<lparr>tokens := Map.empty\<rparr>"

definition cachedToken :: "'a World_scheme \<Rightarrow> string \<Rightarrow> string" where
  \<comment> \<open>\<open>c.tokens[tokenType]\<close>: the empty string for a kind that is not in the map.\<close>
  "cachedToken c tokenType = (case tokens c tokenType of None \<Rightarrow> [] | Some tok \<Rightarrow> tok)"

definition extractToken :: "Env \<Rightarrow> RawBody \<Rightarrow> string \<Rightarrow> Err + string" where
  "extractToken env raw tokenType =
     (case query_tokens raw of
        Inl e \<Rightarrow> Inl (JsonError e)
      | Inr toks \<Rightarrow>
          (let key = ToLower env tokenType @ ''token'';
               tok = (case toks key of None \<Rightarrow> [] | Some t \<Rightarrow> t)
           in if tok = [] then Inl (Plain (''missing '' @ tokenType @ '' token'')) else Inr tok))"

definition tokenQuery :: "string \<Rightarrow> Params" where
  "tokenQuery tokenType =
     PMapAny [(''action'', AString ''query''), (''meta'', AString ''tokens''), (''type'', AString tokenType)]"

definition flightKey :: "string \<Rightarrow> string" where
  "flightKey tokenType = ''token:'' @ tokenType"

definition flightDone :: "string \<Rightarrow> 'a World_scheme \<Rightarrow> 'a World_scheme" where
  \<comment> \<open>The group forgets the key when the call in flight has returned.\<close>
  "flightDone key c = c\<lparr>flights := remove1 key (flights c)\<rparr>"

text \<open>
  \<open>GetToken\<close> looks in the cache and then runs the fetch under \<open>singleflight.Do\<close>. A call
  of \<open>Do\<close> for a key that has a call in flight waits for that call; in a sequential run
  the call in flight is one this call is nested in (a relogin during the fetch of a
  login token), so it waits for ever. The function run by \<open>Do\<close> looks in the cache
  again, which nothing has changed since the first look. A nil response without an
  error makes \<open>resp.Raw\<close> panic, and the call does not return.
\<close>

definition GetToken_with :: "Env \<Rightarrow> (Params \<Rightarrow> 'a World_scheme \<Rightarrow> (Result \<times> 'a World_scheme) option) \<Rightarrow> string
    \<Rightarrow> 'a World_scheme \<Rightarrow> ((Err + string) \<times> 'a World_scheme) option" where
  "GetToken_with env post tokenType c =
     (if cachedToken c tokenType \<noteq> [] then Some (Inr (cachedToken c tokenType), c)
      else if flightKey tokenType \<in> set (flights c) then None
      else
        (case post (tokenQuery tokenType) (c\<lparr>flights := flightKey tokenType # flights c\<rparr>) of
           None \<Rightarrow> None
         | Some ((resp, Some err), c1) \<Rightarrow> Some (Inl err, flightDone (flightKey tokenType) c1)
         | Some ((None, None), c1) \<Rightarrow> None
         | Some ((Some resp, None), c1) \<Rightarrow>
             (case extractToken env (Raw resp) tokenType of
                Inl err \<Rightarrow> Some (Inl err, flightDone (flightKey tokenType) c1)
              | Inr tok \<Rightarrow>
                  Some (Inr tok, flightDone (flightKey tokenType)
                                   (c1\<lparr>tokens := (tokens c1)(tokenType \<mapsto> tok)\<rparr>)))))"

subsection \<open>Writes with a token (tokens.go: PostWithToken)\<close>

record PostWithTokenOptions =
  TokenName :: string
  Retry :: int
  NoCache :: bool

fun map_put :: "string \<Rightarrow> Any \<Rightarrow> (string \<times> Any) list \<Rightarrow> (string \<times> Any) list" where
  \<comment> \<open>\<open>m[k] = v\<close> on a map given by its entries.\<close>
  "map_put k v [] = [(k, v)]"
| "map_put k v ((k', v') # rest) = (if k = k' then (k, v) # rest else (k', v') # map_put k v rest)"

definition heap_load :: "'a World_scheme \<Rightarrow> nat \<Rightarrow> (string \<times> Any) list" where
  "heap_load c a = (if a < length (heap c) then heap c ! a else [])"

definition heap_store :: "nat \<Rightarrow> string \<Rightarrow> Any \<Rightarrow> 'a World_scheme \<Rightarrow> 'a World_scheme" where
  "heap_store a k v c = c\<lparr>heap := (heap c)[a := map_put k v (heap_load c a)]\<rparr>"

definition heap_alloc :: "(string \<times> Any) list \<Rightarrow> 'a World_scheme \<Rightarrow> nat \<times> 'a World_scheme" where
  "heap_alloc entries c = (length (heap c), c\<lparr>heap := heap c @ [entries]\<rparr>)"

definition tokenFailed :: "string \<Rightarrow> Response \<Rightarrow> Err" where
  "tokenFailed code resp =
     ApiError \<lparr>ErrCode = code, Message = ''token error'', HTTPStatus = StatusCode resp,
               ErrList = [], ErrResponse = Some resp\<rparr>"

definition isTokenError :: "Env \<Rightarrow> Err \<Rightarrow> bool" where
  \<comment> \<open>\<open>e, ok := IsMediaWikiApiError(err); ok && isTokenErrorCode(e.Code)\<close>\<close>
  "isTokenError env err =
     (case IsMediaWikiApiError err of None \<Rightarrow> False | Some e \<Rightarrow> isTokenErrorCode env (ErrCode e))"

definition exhausted :: "string \<Rightarrow> Err option \<Rightarrow> Err" where
  \<comment> \<open>\<open>fmt.Errorf(msg + ": %w", lastErr)\<close>, with \<open>fmt.Errorf(msg)\<close> for a nil \<open>lastErr\<close>.\<close>
  "exhausted msg lastErr = Wrap msg (case lastErr of None \<Rightarrow> Plain msg | Some e \<Rightarrow> e)"

function PostWithToken_loop :: "Env \<Rightarrow> (Params \<Rightarrow> 'a World_scheme \<Rightarrow> (Result \<times> 'a World_scheme) option)
    \<Rightarrow> (string \<Rightarrow> 'a World_scheme \<Rightarrow> ((Err + string) \<times> 'a World_scheme) option)
    \<Rightarrow> string \<Rightarrow> string \<Rightarrow> int \<Rightarrow> bool \<Rightarrow> nat \<Rightarrow> int \<Rightarrow> Err option
    \<Rightarrow> 'a World_scheme \<Rightarrow> (Result \<times> 'a World_scheme) option" where
  "PostWithToken_loop env post getTok tokenType tokenName retry noCache p2 attempt lastErr c =
     (if attempt < retry then
        (case getTok tokenType (if attempt > 0 \<or> noCache then InvalidateToken tokenType c else c) of
           None \<Rightarrow> None
         | Some (Inl err, c1) \<Rightarrow> Some ((None, Some err), c1)
         | Some (Inr tok, c1) \<Rightarrow>
             (let c2 = heap_store p2 tokenName (AString tok) c1 in
              case post (PMapAny (heap_load c2 p2)) c2 of
                None \<Rightarrow> None
              | Some ((None, None), c3) \<Rightarrow> Some ((None, None), c3)
              | Some ((Some resp, None), c3) \<Rightarrow>
                  (let code = responseErrorCode (Some resp) in
                   if isTokenErrorCode env code
                   then PostWithToken_loop env post getTok tokenType tokenName retry noCache p2
                          (attempt + 1) (Some (tokenFailed code resp)) c3
                   else Some ((Some resp, None), c3))
              | Some ((resp, Some err), c3) \<Rightarrow>
                  (if isTokenError env err
                   then PostWithToken_loop env post getTok tokenType tokenName retry noCache p2
                          (attempt + 1) (Some err) c3
                   else Some ((resp, Some err), c3))))
      else Some ((None, Some (exhausted ''token retry exhausted'' lastErr)), c))"
  by pat_completeness auto
termination
  by (relation "measure (\<lambda>(env, post, getTok, tokenType, tokenName, retry, noCache, p2, attempt, lastErr, c). nat (retry - attempt))") auto

definition copy_entries :: "nat option \<Rightarrow> nat \<Rightarrow> 'a World_scheme \<Rightarrow> 'a World_scheme" where
  \<comment> \<open>\<open>for k, v := range p { p2[k] = v }\<close>; ranging over a nil map does nothing.\<close>
  "copy_entries p p2 c =
     fold (\<lambda>(k, v). heap_store p2 k v) (case p of None \<Rightarrow> [] | Some a \<Rightarrow> heap_load c a) c"

definition PostWithToken_with :: "Env \<Rightarrow> (Params \<Rightarrow> 'a World_scheme \<Rightarrow> (Result \<times> 'a World_scheme) option)
    \<Rightarrow> (string \<Rightarrow> 'a World_scheme \<Rightarrow> ((Err + string) \<times> 'a World_scheme) option)
    \<Rightarrow> string \<Rightarrow> nat option \<Rightarrow> PostWithTokenOptions option
    \<Rightarrow> 'a World_scheme \<Rightarrow> (Result \<times> 'a World_scheme) option" where
  "PostWithToken_with env post getTok tokenType p opt c =
     (let tokenName = (case opt of None \<Rightarrow> ''token'' | Some oo \<Rightarrow> if TokenName oo \<noteq> [] then TokenName oo else ''token'');
          retry = (case opt of None \<Rightarrow> tokenRetry c | Some oo \<Rightarrow> if Retry oo > 0 then Retry oo else tokenRetry c);
          noCache = (case opt of None \<Rightarrow> False | Some oo \<Rightarrow> NoCache oo);
          (p2, c1) = heap_alloc [] c
      in PostWithToken_loop env post getTok tokenType tokenName retry noCache p2 0 None (copy_entries p p2 c1))"

subsection \<open>Login, relogin and logout (auth.go)\<close>

definition loginParams :: "string \<Rightarrow> string \<Rightarrow> string \<Rightarrow> Params" where
  "loginParams user pass tok =
     PMapAny [(''action'', AString ''login''), (''lgname'', AString user),
              (''lgpassword'', AString pass), (''lgtoken'', AString tok)]"

definition loginFailed :: "LoginResult \<Rightarrow> Err" where
  "loginFailed out =
     (if Reason out \<noteq> []
      then Plain (''login failed: '' @ Result out @ '' ('' @ Reason out @ '')'')
      else Plain (''login failed: '' @ Result out))"

function Login_loop :: "Env \<Rightarrow> (Params \<Rightarrow> 'a World_scheme \<Rightarrow> (Result \<times> 'a World_scheme) option)
    \<Rightarrow> (string \<Rightarrow> 'a World_scheme \<Rightarrow> ((Err + string) \<times> 'a World_scheme) option)
    \<Rightarrow> string \<Rightarrow> string \<Rightarrow> int \<Rightarrow> int \<Rightarrow> Err option
    \<Rightarrow> 'a World_scheme \<Rightarrow> ((LoginResult option \<times> Err option) \<times> 'a World_scheme) option" where
  "Login_loop env post getTok user pass retry attempt lastErr c =
     (if attempt < retry then
        (case getTok ''login'' (InvalidateToken ''login'' c) of
           None \<Rightarrow> None
         | Some (Inl err, c1) \<Rightarrow> Some ((None, Some err), c1)
         | Some (Inr tok, c1) \<Rightarrow>
             (case post (loginParams user pass tok) c1 of
                None \<Rightarrow> None
              | Some ((resp, Some err), c2) \<Rightarrow>
                  (if isTokenError env err
                   then Login_loop env post getTok user pass retry (attempt + 1) (Some err) c2
                   else Some ((None, Some err), c2))
              | Some ((None, None), c2) \<Rightarrow> None
              | Some ((Some resp, None), c2) \<Rightarrow>
                  (case login_object (Raw resp) of
                     Inl e \<Rightarrow> Some ((None, Some (JsonError e)), c2)
                   | Inr out \<Rightarrow>
                       (let r = ToLower env (Result out) in
                        if r = ''success'' then
                          Some ((Some out, None),
                                InvalidateAllTokens
                                  (c2\<lparr>loginUser := user, loginPass := pass, loggedInUser := LgName out\<rparr>))
                        else if r = ''needtoken'' \<or> r = ''wrongtoken'' then
                          Login_loop env post getTok user pass retry (attempt + 1)
                            (Some (Plain (''login token error: '' @ Result out))) c2
                        else Some ((Some out, Some (loginFailed out)), c2)))))
      else Some ((None, Some (exhausted ''login retry exhausted'' lastErr)), c))"
  by pat_completeness auto
termination
  by (relation "measure (\<lambda>(env, post, getTok, user, pass, retry, attempt, lastErr, c). nat (retry - attempt))") auto

definition Login_with :: "Env \<Rightarrow> (Params \<Rightarrow> 'a World_scheme \<Rightarrow> (Result \<times> 'a World_scheme) option)
    \<Rightarrow> (string \<Rightarrow> 'a World_scheme \<Rightarrow> ((Err + string) \<times> 'a World_scheme) option)
    \<Rightarrow> string \<Rightarrow> string
    \<Rightarrow> 'a World_scheme \<Rightarrow> ((LoginResult option \<times> Err option) \<times> 'a World_scheme) option" where
  "Login_with env post getTok user pass c = Login_loop env post getTok user pass (tokenRetry c) 0 None c"

definition Relogin_with :: "(string \<Rightarrow> string \<Rightarrow> 'a World_scheme \<Rightarrow> ((LoginResult option \<times> Err option) \<times> 'a World_scheme) option)
    \<Rightarrow> 'a World_scheme \<Rightarrow> (Err option \<times> 'a World_scheme) option" where
  "Relogin_with login c =
     (if loginUser c = [] \<or> loginPass c = []
      then Some (Some (Plain ''relogin requested but no stored credentials''), c)
      else (case login (loginUser c) (loginPass c) c of
              None \<Rightarrow> None
            | Some ((res, err), c1) \<Rightarrow> Some (err, c1)))"

definition Logout_with :: "(string \<Rightarrow> nat option \<Rightarrow> PostWithTokenOptions option \<Rightarrow> 'a World_scheme \<Rightarrow> (Result \<times> 'a World_scheme) option)
    \<Rightarrow> 'a World_scheme \<Rightarrow> (Err option \<times> 'a World_scheme) option" where
  "Logout_with postWithToken c =
     (let (p, c0) = heap_alloc [(''action'', AString ''logout'')] c in
      case postWithToken ''csrf'' (Some p) None c0 of
        None \<Rightarrow> None
      | Some ((resp, Some err), c1) \<Rightarrow> Some (Some err, c1)
      | Some ((resp, None), c1) \<Rightarrow>
          Some (None, InvalidateAllTokens (c1\<lparr>loggedInUser := [], loginUser := [], loginPass := []\<rparr>)))"

subsection \<open>The operations of the client\<close>

text \<open>
  \<open>nested_Login env n\<close> is \<open>Login\<close> as \<open>Relogin\<close> calls it, with at most \<open>n\<close> logins
  nested in one another; the operations at depth \<open>n\<close> are built on it. A call that
  would need a deeper nesting has the result \<open>None\<close>.
\<close>

primrec nested_Login :: "Env \<Rightarrow> nat \<Rightarrow> string \<Rightarrow> string
    \<Rightarrow> 'a World_scheme \<Rightarrow> ((LoginResult option \<times> Err option) \<times> 'a World_scheme) option" where
  "nested_Login env 0 = (\<lambda>user pass c. None)"
| "nested_Login env (Suc n) =
     Login_with env (Post_with env (Relogin_with (nested_Login env n)))
       (GetToken_with env (Post_with env (Relogin_with (nested_Login env n))))"

definition Relogin :: "Env \<Rightarrow> nat \<Rightarrow> 'a World_scheme \<Rightarrow> (Err option \<times> 'a World_scheme) option" where
  "Relogin env n = Relogin_with (nested_Login env n)"

definition Get :: "Env \<Rightarrow> nat \<Rightarrow> Params \<Rightarrow> 'a World_scheme \<Rightarrow> (Result \<times> 'a World_scheme) option" where
  "Get env n = Get_with env (Relogin env n)"

definition Post :: "Env \<Rightarrow> nat \<Rightarrow> Params \<Rightarrow> 'a World_scheme \<Rightarrow> (Result \<times> 'a World_scheme) option" where
  "Post env n = Post_with env (Relogin env n)"

definition GetToken :: "Env \<Rightarrow> nat \<Rightarrow> string \<Rightarrow> 'a World_scheme \<Rightarrow> ((Err + string) \<times> 'a World_scheme) option" where
  "GetToken env n = GetToken_with env (Post env n)"

definition PostWithToken :: "Env \<Rightarrow> nat \<Rightarrow> string \<Rightarrow> nat option \<Rightarrow> PostWithTokenOptions option
    \<Rightarrow> 'a World_scheme \<Rightarrow> (Result \<times> 'a World_scheme) option" where
  "PostWithToken env n = PostWithToken_with env (Post env n) (GetToken env n)"

definition Login :: "Env \<Rightarrow> nat \<Rightarrow> string \<Rightarrow> string
    \<Rightarrow> 'a World_scheme \<Rightarrow> ((LoginResult option \<times> Err option) \<times> 'a World_scheme) option" where
  "Login env n = Login_with env (Post env n) (GetToken env n)"

definition Logout :: "Env \<Rightarrow> nat \<Rightarrow> 'a World_scheme \<Rightarrow> (Err option \<times> 'a World_scheme) option" where
  "Logout env n = Logout_with (PostWithToken env n)"

section \<open>Concurrent callers of GetToken\<close>

text \<open>
  The callers of \<open>GetToken\<close> for one token kind, run as goroutines that share the
  client. A caller takes one step at a time, and a step is what the code does without
  another caller in between: a section under \<open>c.mu\<close>, a section under the mutex of the
  singleflight group, or the fetch (the POST of the token query and the extraction of
  the token from its reply). The group has, for the key of the kind, the call in
  flight if there is one; a call is made by the caller that finds none (its leader),
  joined by the callers that find it, and removed by its leader when the function has
  returned, with the result every joiner receives.

  The network is a function \<open>net\<close>: the result of the POST of the \<open>k\<close>-th fetch issued.
\<close>

datatype Caller =
    Start
  | AtDo
  | Waiting nat
  | InFn nat
  | Fetching nat
  | Storing nat string
  | Leaving nat "Err + string"
  | Returned "Err + string"
  | Panicked

record Concurrent =
  client :: World
  inflight :: "nat option"
  calls :: "(Err + string) option list"
  fetches :: nat
  callers :: "Caller list"

definition set_caller :: "nat \<Rightarrow> Caller \<Rightarrow> Concurrent \<Rightarrow> Concurrent" where
  "set_caller i p s = s\<lparr>callers := (callers s)[i := p]\<rparr>"

definition fetched :: "Concurrent \<Rightarrow> Concurrent" where
  "fetched s = s\<lparr>fetches := fetches s + 1\<rparr>"

definition step :: "Env \<Rightarrow> (nat \<Rightarrow> Result) \<Rightarrow> string \<Rightarrow> nat \<Rightarrow> Concurrent \<Rightarrow> Concurrent" where
  "step env net tokenType i s =
     (if length (callers s) \<le> i then s
      else
        (case callers s ! i of
           Start \<Rightarrow>
             \<comment> \<open>tokens.go 31 to 36: the lookup in the cache under \<open>c.mu\<close>\<close>
             if cachedToken (client s) tokenType \<noteq> []
             then set_caller i (Returned (Inr (cachedToken (client s) tokenType))) s
             else set_caller i AtDo s
         | AtDo \<Rightarrow>
             \<comment> \<open>\<open>Do\<close>: join the call in flight, or make one and run the function\<close>
             (case inflight s of
                Some f \<Rightarrow> set_caller i (Waiting f) s
              | None \<Rightarrow>
                  set_caller i (InFn (length (calls s)))
                    (s\<lparr>inflight := Some (length (calls s)), calls := calls s @ [None]\<rparr>))
         | Waiting f \<Rightarrow>
             \<comment> \<open>a joiner returns the result of its call once the call is done\<close>
             (if f < length (calls s)
              then (case calls s ! f of None \<Rightarrow> s | Some r \<Rightarrow> set_caller i (Returned r) s)
              else s)
         | InFn f \<Rightarrow>
             \<comment> \<open>tokens.go 40 to 45: the second lookup, in the function\<close>
             if cachedToken (client s) tokenType \<noteq> []
             then set_caller i (Leaving f (Inr (cachedToken (client s) tokenType))) s
             else set_caller i (Fetching f) s
         | Fetching f \<Rightarrow>
             \<comment> \<open>tokens.go 47 to 59: the POST and \<open>extractToken\<close>\<close>
             (case net (fetches s) of
                (resp, Some err) \<Rightarrow> set_caller i (Leaving f (Inl err)) (fetched s)
              | (None, None) \<Rightarrow> set_caller i Panicked (fetched s)
              | (Some resp, None) \<Rightarrow>
                  (case extractToken env (Raw resp) tokenType of
                     Inl err \<Rightarrow> set_caller i (Leaving f (Inl err)) (fetched s)
                   | Inr tok \<Rightarrow> set_caller i (Storing f tok) (fetched s)))
         | Storing f tok \<Rightarrow>
             \<comment> \<open>tokens.go 61 to 64: the token goes to the cache under \<open>c.mu\<close>\<close>
             set_caller i (Leaving f (Inr tok))
               (s\<lparr>client := (client s)\<lparr>tokens := (tokens (client s))(tokenType \<mapsto> tok)\<rparr>\<rparr>)
         | Leaving f r \<Rightarrow>
             \<comment> \<open>the group records the result, wakes the joiners and forgets the call\<close>
             set_caller i (Returned r)
               (s\<lparr>calls := (calls s)[f := Some r],
                  inflight := (if inflight s = Some f then None else inflight s)\<rparr>)
         | Returned r \<Rightarrow> s
         | Panicked \<Rightarrow> s))"

definition run :: "Env \<Rightarrow> (nat \<Rightarrow> Result) \<Rightarrow> string \<Rightarrow> nat list \<Rightarrow> Concurrent \<Rightarrow> Concurrent" where
  \<comment> \<open>A schedule is the list of the callers that take the steps, in order.\<close>
  "run env net tokenType schedule s = fold (step env net tokenType) schedule s"




definition preserves :: "('w \<Rightarrow> 'w \<Rightarrow> bool) \<Rightarrow> ('w \<Rightarrow> ('r \<times> 'w) option) \<Rightarrow> bool" where
  "preserves R f \<longleftrightarrow> (\<forall>c r c'. f c = Some (r, c') \<longrightarrow> R c c')"

definition stable :: "('a World_scheme \<Rightarrow> 'a World_scheme \<Rightarrow> bool) \<Rightarrow> bool" where
  "stable R \<longleftrightarrow>
     (\<forall>c. R c c) \<and> (\<forall>a b c. R a b \<longrightarrow> R b c \<longrightarrow> R a c) \<and>
     (\<forall>c t. R c (c\<lparr>tokens := t\<rparr>)) \<and>
     (\<forall>c f. R c (c\<lparr>flights := f\<rparr>)) \<and>
     (\<forall>env m np c r np' c'. doOnce env m np c = (r, np', c') \<longrightarrow> R c c')"

definition token_failure :: "Env \<Rightarrow> Result \<Rightarrow> Err option" where
  "token_failure env pr =
     (case pr of
        (resp, Some e) \<Rightarrow> if isTokenError env e then Some e else None
      | (Some r, None) \<Rightarrow>
          if isTokenErrorCode env (responseErrorCode (Some r))
          then Some (tokenFailed (responseErrorCode (Some r)) r) else None
      | (None, None) \<Rightarrow> None)"


definition request_field :: "Request \<Rightarrow> string \<Rightarrow> string" where
  "request_field req k =
     (case body req of NoBody \<Rightarrow> values_Get (query req) k | Urlencoded v \<Rightarrow> values_Get v k | Multipart v ps \<Rightarrow> values_Get v k)"

definition extends :: "'a World_scheme \<Rightarrow> 'a World_scheme \<Rightarrow> bool" where
  "extends c c' \<longleftrightarrow> (\<exists>new. exchanges c' = exchanges c @ new)"

definition login_succeeded :: "Env \<Rightarrow> Request \<times> Reply \<Rightarrow> bool" where
  "login_succeeded env x =
     (request_field (fst x) ''action'' = ''login'' \<and>
      (case snd x of
         Http resp \<Rightarrow> (case login_object (Raw resp) of Inr out \<Rightarrow> ToLower env (Result out) = ''success'' | Inl e \<Rightarrow> False)
       | _ \<Rightarrow> False))"

definition login_state :: "'a World_scheme \<Rightarrow> string \<times> string \<times> string" where
  "login_state c = (loginUser c, loginPass c, loggedInUser c)"

definition kept_unless_login :: "Env \<Rightarrow> 'a World_scheme \<Rightarrow> 'a World_scheme \<Rightarrow> bool" where
  "kept_unless_login env c c' \<longleftrightarrow>
     extends c c' \<and>
     (login_state c' = login_state c \<or> list_ex (login_succeeded env) (drop (length (exchanges c)) (exchanges c')))"

definition last_reply :: "Env \<Rightarrow> (Params \<Rightarrow> 'a World_scheme \<Rightarrow> (Result \<times> 'a World_scheme) option) \<Rightarrow> bool" where
  "last_reply env post \<longleftrightarrow>
     (\<forall>p c resp c2. post p c = Some ((Some resp, None), c2) \<longrightarrow>
        (\<exists>ex req np. normalizeParams p = Inr np \<and> exchanges c2 = exchanges c @ ex @ [(req, Http resp)] \<and>
           httpMethod req = POST \<and>
           (\<forall>k. request_field req k = values_Get (Values (injectAssert env c \<lparr>skipAssert = False, skipRelogin = False\<rparr> np)) k)))"

definition heap_kept :: "nat \<Rightarrow> 'a World_scheme \<Rightarrow> 'a World_scheme \<Rightarrow> bool" where
  "heap_kept L c c' \<longleftrightarrow> take L (heap c') = take L (heap c)"




definition default_fields :: "(string \<times> string) list" where
  \<comment> \<open>The four fields that have a default, with their defaults.\<close>
  "default_fields =
     [(''action'', ''query''), (''format'', ''json''), (''formatversion'', ''2''),
      (''errorformat'', ''plaintext'')]"


section \<open>Scenarios\<close>

text \<open>
  Concrete clients and servers, after the servers of client\_test.go. A client made by
  \<open>NewClient\<close> with no option: keep-login on, three relogins, three token attempts.
\<close>

definition newClient :: World where
  "newClient =
     \<lparr>endpoint_query = Map.empty, ua = ''mwapi-go/0.1'', throwOnApiError = False, keepLogin = True,
      reloginRetry = 3, tokenRetry = 3, tokens = Map.empty, loggedInUser = [], loginUser = [],
      loginPass = [], flights = [], heap = [], streams = (\<lambda>h. Data []), exchanges = []\<rparr>"

definition loggedIn :: World where
  \<comment> \<open>The client after a login as UserA, with a cached csrf token.\<close>
  "loggedIn = newClient\<lparr>loggedInUser := ''UserA'', loginUser := ''UserA'', loginPass := ''pass'',
                         tokens := [''csrf'' \<mapsto> ''CSRF_0'']\<rparr>"

definition emptyBody :: RawBody where
  \<comment> \<open>A JSON object with neither \<open>query.tokens\<close> nor \<open>login\<close>: both decodings give zero values.\<close>
  "emptyBody = \<lparr>query_tokens = Inr Map.empty,
                 login_object = Inr \<lparr>Result = [], LgUserID = 0, LgName = [], Reason = []\<rparr>\<rparr>"

definition okReply :: "RawBody \<Rightarrow> Reply" where
  "okReply raw = Http \<lparr>StatusCode = 200, Error = None, Errors = [], Raw = raw\<rparr>"

definition errorReply :: "string \<Rightarrow> string \<Rightarrow> Reply" where
  "errorReply code info =
     Http \<lparr>StatusCode = 200, Error = Some \<lparr>Code = code, Info = info, Text_field = []\<rparr>,
           Errors = [], Raw = emptyBody\<rparr>"

definition tokenReply :: "string \<Rightarrow> string \<Rightarrow> Reply" where
  "tokenReply key tok = okReply (emptyBody\<lparr>query_tokens := Inr [key \<mapsto> tok]\<rparr>)"

definition loginReply :: "string \<Rightarrow> string \<Rightarrow> Reply" where
  "loginReply result name =
     okReply (emptyBody\<lparr>login_object := Inr \<lparr>Result = result, LgUserID = 1, LgName = name, Reason = []\<rparr>\<rparr>)"

definition testServer :: "((Request \<times> Reply) list \<Rightarrow> Request \<Rightarrow> Reply) \<Rightarrow> Env" where
  \<comment> \<open>The strings of the scenarios are ASCII, so the Unicode mapping is never consulted.\<close>
  "testServer f = \<lparr>server = f, toLowerUnicode = (\<lambda>s. s)\<rparr>"

definition isTokenRequest :: "string \<Rightarrow> Request \<Rightarrow> bool" where
  "isTokenRequest kind req \<longleftrightarrow>
     request_field req ''action'' = ''query'' \<and> request_field req ''meta'' = ''tokens'' \<and>
     request_field req ''type'' = kind"

definition serverDown :: Env where
  "serverDown = testServer (\<lambda>hist req.
     NetFail ''connection refused'')"

definition serverBadToken :: Env where
  \<comment> \<open>TestPostWithToken\_RetryOnBadToken: the first csrf token is stale, the second is good.\<close>
  "serverBadToken = testServer (\<lambda>hist req.
     (if isTokenRequest ''csrf'' req then
        tokenReply ''csrftoken''
          (if filter (isTokenRequest ''csrf'' \<circ> fst) hist = [] then ''CSRF_1'' else ''CSRF_2'')
      else if request_field req ''action'' = ''edit'' then
        (if request_field req ''token'' \<noteq> ''CSRF_2'' then errorReply ''badtoken'' ''bad token''
         else okReply emptyBody)
      else errorReply ''badtest'' ''unhandled request''))"

definition serverAlwaysBadToken :: Env where
  "serverAlwaysBadToken = testServer (\<lambda>hist req.
     (if isTokenRequest ''csrf'' req then tokenReply ''csrftoken'' ''CSRF_1''
      else errorReply ''badtoken'' ''bad token''))"

definition serverSessionLost :: Env where
  \<comment> \<open>TestKeepLogin\_ReloginOnAssertUserFailed: the first request that is neither a login
      nor a token request is answered with assertuserfailed, the later ones succeed.\<close>
  "serverSessionLost = testServer (\<lambda>hist req.
     (if isTokenRequest ''login'' req then tokenReply ''logintoken'' ''LOGIN_TOKEN''
      else if request_field req ''action'' = ''login'' then
        (if request_field req ''lgtoken'' \<noteq> ''LOGIN_TOKEN'' then loginReply ''WrongToken'' []
         else loginReply ''Success'' ''UserA'')
      else if request_field req ''meta'' = [] then
        (if filter (\<lambda>x. request_field (fst x) ''action'' \<noteq> ''login'' \<and> request_field (fst x) ''meta'' = []) hist = []
         then errorReply ''assertuserfailed'' ''session expired''
         else okReply emptyBody)
      else errorReply ''badtest'' ''unhandled request''))"

definition editClient :: World where
  \<comment> \<open>A client whose caller holds, at address 0, the parameters of an edit.\<close>
  "editClient =
     newClient\<lparr>heap := [[(''action'', AString ''edit''), (''title'', AString ''Sandbox''),
                            (''text'', AString ''hello'')]]\<rparr>"

definition serverOk :: Env where
  \<comment> \<open>A server that answers every request with an empty JSON object.\<close>
  "serverOk = testServer (\<lambda>hist req.
     okReply emptyBody)"






declare do_loop.simps [simp del] PostWithToken_loop.simps [simp del] Login_loop.simps [simp del]

lemma stableD:
  assumes "stable R"
  shows "R c c" and "R a b \<Longrightarrow> R b d \<Longrightarrow> R a d" and "R c (c\<lparr>tokens := t\<rparr>)"
    and "doOnce env m np c = (r, np', c') \<Longrightarrow> R c c'" and "R c (c\<lparr>flights := f\<rparr>)"
  using assms unfolding stable_def by blast+

lemma preservesD: "preserves R f \<Longrightarrow> f c = Some (r, c') \<Longrightarrow> R c c'"
  unfolding preserves_def by blast

lemma do_loop_shape:
  assumes "do_loop env relogin m maxR attempt np lastErr c = Some (res, c')"
    and "attempt \<le> maxR" and "doOnce env m np c = (r, np', c1)"
  shows "(c' = c1 \<and> fst res = fst r \<and> (snd res = None \<longrightarrow> snd r = None) \<and> (snd r \<noteq> None \<longrightarrow> res = r))
       \<or> (\<exists>err2. relogin c1 = Some (Some err2, c') \<and> snd res \<noteq> None \<and> fst res = fst r \<and> attempt < maxR)
       \<or> (\<exists>c2 e. relogin c1 = Some (None, c2) \<and> attempt < maxR
             \<and> do_loop env relogin m maxR (attempt + 1) np' (Some e) c2 = Some (res, c'))"
  using assms
  apply (subst (asm) do_loop.simps)
  apply (simp add: Let_def split: if_splits prod.splits option.splits)
  apply auto
  done

lemma do_loop_cases:
  assumes "do_loop env relogin m maxR attempt np lastErr c = Some (res, c')"
    and "attempt \<le> maxR" and "doOnce env m np c = (r, np', c1)"
  obtains (direct) "c' = c1" "fst res = fst r" "snd res = None \<longrightarrow> snd r = None" "snd r \<noteq> None \<longrightarrow> res = r"
  | (relogin_failed) err2 where "relogin c1 = Some (Some err2, c')" "snd res \<noteq> None" "fst res = fst r" "attempt < maxR"
  | (replay) c2 e where "relogin c1 = Some (None, c2)" "attempt < maxR"
      "do_loop env relogin m maxR (attempt + 1) np' (Some e) c2 = Some (res, c')"
  using do_loop_shape[OF assms] by (elim disjE exE conjE) blast+

lemma do_loop_preserves:
  assumes st: "stable R" and rl: "preserves R relogin"
  shows "do_loop env relogin m maxR attempt np lastErr c = Some (res, c') \<Longrightarrow> R c c'"
proof (induction "nat (maxR + 1 - attempt)" arbitrary: attempt np lastErr c rule: less_induct)
  case less
  note run = less.prems
  show ?case
  proof (cases "attempt \<le> maxR")
    case False
    with run show ?thesis by (simp add: do_loop.simps stableD(1)[OF st])
  next
    case le: True
    obtain r np' c1 where once: "doOnce env m np c = (r, np', c1)" by (cases "doOnce env m np c") auto
    have R1: "R c c1" using stableD(4)[OF st once] .
    from run le once show ?thesis
    proof (cases rule: do_loop_cases)
      case direct with R1 show ?thesis by simp
    next
      case (relogin_failed err2)
      have "R c1 c'" using preservesD[OF rl relogin_failed(1)] .
      with R1 show ?thesis by (rule stableD(2)[OF st])
    next
      case (replay c2 e)
      have "R c1 c2" using preservesD[OF rl replay(1)] .
      moreover have "R c2 c'" using less.hyps[OF _ replay(3)] replay(2) by simp
      ultimately show ?thesis using R1 stableD(2)[OF st] by blast
    qed
  qed
qed

lemma do_preserves:
  assumes st: "stable R" and rl: "preserves R relogin"
  shows "preserves R (do env relogin m p opt)"
  unfolding preserves_def do_def
  by (auto split: sum.splits intro: stableD(1)[OF st] do_loop_preserves[OF st rl])

lemma GetToken_with_shape:
  assumes "GetToken_with env post t c = Some (r, c')"
  shows "(cachedToken c t \<noteq> [] \<and> r = Inr (cachedToken c t) \<and> c' = c)
       \<or> (\<exists>pr c1 err. cachedToken c t = [] \<and> flightKey t \<notin> set (flights c)
             \<and> post (tokenQuery t) (c\<lparr>flights := flightKey t # flights c\<rparr>) = Some (pr, c1)
             \<and> (snd pr = Some err \<or> (\<exists>resp. pr = (Some resp, None) \<and> extractToken env (Raw resp) t = Inl err))
             \<and> r = Inl err \<and> c' = flightDone (flightKey t) c1)
       \<or> (\<exists>resp c1 tok. cachedToken c t = [] \<and> flightKey t \<notin> set (flights c)
             \<and> post (tokenQuery t) (c\<lparr>flights := flightKey t # flights c\<rparr>) = Some ((Some resp, None), c1)
             \<and> extractToken env (Raw resp) t = Inr tok \<and> r = Inr tok
             \<and> c' = flightDone (flightKey t) (c1\<lparr>tokens := (tokens c1)(t \<mapsto> tok)\<rparr>))"
proof (cases "cachedToken c t \<noteq> []")
  case True
  with assms show ?thesis by (auto simp: GetToken_with_def)
next
  case miss: False
  show ?thesis
  proof (cases "flightKey t \<in> set (flights c)")
    case True
    with assms miss show ?thesis by (simp add: GetToken_with_def)
  next
    case free: False
    from assms miss free obtain pr c1 where
      po: "post (tokenQuery t) (c\<lparr>flights := flightKey t # flights c\<rparr>) = Some (pr, c1)"
      by (auto simp: GetToken_with_def split: option.splits)
    obtain resp e where pr: "pr = (resp, e)" by (cases pr)
    show ?thesis
    proof (cases e)
      case (Some err)
      with assms miss free po pr have "r = Inl err" "c' = flightDone (flightKey t) c1"
        by (cases resp; auto simp: GetToken_with_def)+
      with miss free po pr Some show ?thesis by auto
    next
      case None
      with assms miss free po pr obtain rs where rs: "resp = Some rs"
        by (cases resp) (simp_all add: GetToken_with_def)
      show ?thesis
      proof (cases "extractToken env (Raw rs) t")
        case (Inl err)
        with assms miss free po pr None rs have "r = Inl err" "c' = flightDone (flightKey t) c1"
          by (simp_all add: GetToken_with_def)
        with miss free po pr None rs Inl show ?thesis by auto
      next
        case (Inr tok)
        with assms miss free po pr None rs have "r = Inr tok"
          "c' = flightDone (flightKey t) (c1\<lparr>tokens := (tokens c1)(t \<mapsto> tok)\<rparr>)"
          by (simp_all add: GetToken_with_def)
        with miss free po pr None rs Inr show ?thesis by auto
      qed
    qed
  qed
qed

lemma GetToken_with_cases:
  assumes "GetToken_with env post t c = Some (r, c')"
  obtains (cached) "cachedToken c t \<noteq> []" "r = Inr (cachedToken c t)" "c' = c"
  | (failed) pr c1 err where "cachedToken c t = []" "flightKey t \<notin> set (flights c)"
      "post (tokenQuery t) (c\<lparr>flights := flightKey t # flights c\<rparr>) = Some (pr, c1)"
      "snd pr = Some err \<or> (\<exists>resp. pr = (Some resp, None) \<and> extractToken env (Raw resp) t = Inl err)"
      "r = Inl err" "c' = flightDone (flightKey t) c1"
  | (fetched) resp c1 tok where "cachedToken c t = []" "flightKey t \<notin> set (flights c)"
      "post (tokenQuery t) (c\<lparr>flights := flightKey t # flights c\<rparr>) = Some ((Some resp, None), c1)"
      "extractToken env (Raw resp) t = Inr tok" "r = Inr tok"
      "c' = flightDone (flightKey t) (c1\<lparr>tokens := (tokens c1)(t \<mapsto> tok)\<rparr>)"
  using GetToken_with_shape[OF assms] by (elim disjE exE conjE) blast+

lemma GetToken_with_preserves:
  assumes st: "stable R" and po: "\<And>p. preserves R (post p)"
  shows "preserves R (GetToken_with env post tokenType)"
proof -
  note tr = stableD(2)[OF st]
  have "R c c'" if run: "GetToken_with env post tokenType c = Some (r, c')" for c r c'
    using run
  proof (cases rule: GetToken_with_cases)
    case cached
    then show ?thesis by (simp add: stableD(1)[OF st])
  next
    case (failed pr c1 err)
    have "R c c1" by (rule tr[OF stableD(5)[OF st] preservesD[OF po failed(3)]])
    moreover have "R c1 c'" unfolding failed(6) flightDone_def by (rule stableD(5)[OF st])
    ultimately show ?thesis by (rule tr)
  next
    case (fetched resp c1 tok)
    have "R c c1" by (rule tr[OF stableD(5)[OF st] preservesD[OF po fetched(3)]])
    moreover have "R c1 c'" unfolding fetched(6) flightDone_def
      by (rule tr[OF stableD(3)[OF st] stableD(5)[OF st]])
    ultimately show ?thesis by (rule tr)
  qed
  then show ?thesis by (simp add: preserves_def)
qed

lemma Relogin_with_preserves:
  assumes st: "stable R" and lg: "\<And>u p. preserves R (login u p)"
  shows "preserves R (Relogin_with login)"
  unfolding preserves_def Relogin_with_def
  using stableD(1)[OF st] preservesD[OF lg]
  by (auto split: if_splits option.splits prod.splits)

lemma Login_loop_shape:
  assumes "Login_loop env post getTok user pass retry attempt lastErr c = Some (res, c')"
    and "attempt < retry"
  shows "(\<exists>err. getTok ''login'' (InvalidateToken ''login'' c) = Some (Inl err, c') \<and> res = (None, Some err))
       \<or> (\<exists>tok c1 pr c2. getTok ''login'' (InvalidateToken ''login'' c) = Some (Inr tok, c1)
             \<and> post (loginParams user pass tok) c1 = Some (pr, c2)
             \<and> ((c' = c2 \<and> snd res \<noteq> None)
                \<or> (\<exists>resp out. pr = (Some resp, None) \<and> login_object (Raw resp) = Inr out
                      \<and> ToLower env (Result out) = ''success'' \<and> res = (Some out, None)
                      \<and> c' = InvalidateAllTokens (c2\<lparr>loginUser := user, loginPass := pass, loggedInUser := LgName out\<rparr>))
                \<or> (\<exists>e. Login_loop env post getTok user pass retry (attempt + 1) (Some e) c2 = Some (res, c'))))"
  using assms
  apply (subst (asm) Login_loop.simps)
  apply (simp add: Let_def split: if_splits prod.splits option.splits sum.splits)
  apply auto
  done

lemma PostWithToken_loop_unfold:
  assumes "attempt < retry"
    and "c0 = (if attempt > 0 \<or> noCache then InvalidateToken tokenType c else c)"
  shows "PostWithToken_loop env post getTok tokenType tokenName retry noCache p2 attempt lastErr c =
     (case getTok tokenType c0 of
        None \<Rightarrow> None
      | Some (Inl err, c1) \<Rightarrow> Some ((None, Some err), c1)
      | Some (Inr tok, c1) \<Rightarrow>
          (case post (PMapAny (heap_load (heap_store p2 tokenName (AString tok) c1) p2))
                  (heap_store p2 tokenName (AString tok) c1) of
             None \<Rightarrow> None
           | Some (pr, c3) \<Rightarrow>
               (if token_failure env pr = None then Some (pr, c3)
                else PostWithToken_loop env post getTok tokenType tokenName retry noCache p2 (attempt + 1) (token_failure env pr) c3)))"
  apply (subst PostWithToken_loop.simps)
  apply (simp only: assms(1) assms(2)[symmetric] if_True Let_def)
  apply (simp add: token_failure_def split: prod.splits option.splits sum.splits)
  done

lemma PostWithToken_loop_shape:
  assumes "PostWithToken_loop env post getTok tokenType tokenName retry noCache p2 attempt lastErr c = Some (res, c')"
    and "attempt < retry"
    and "c0 = (if attempt > 0 \<or> noCache then InvalidateToken tokenType c else c)"
  shows "(\<exists>err. getTok tokenType c0 = Some (Inl err, c') \<and> res = (None, Some err))
       \<or> (\<exists>tok c1 pr c3. getTok tokenType c0 = Some (Inr tok, c1)
             \<and> post (PMapAny (heap_load (heap_store p2 tokenName (AString tok) c1) p2))
                  (heap_store p2 tokenName (AString tok) c1) = Some (pr, c3)
             \<and> ((token_failure env pr = None \<and> res = pr \<and> c' = c3)
                \<or> (token_failure env pr \<noteq> None
                    \<and> PostWithToken_loop env post getTok tokenType tokenName retry noCache p2 (attempt + 1) (token_failure env pr) c3 = Some (res, c'))))"
  using assms(1)
  apply (subst (asm) PostWithToken_loop_unfold[OF assms(2) assms(3)])
  apply (simp split: prod.splits option.splits sum.splits if_splits)
  apply auto
  done

lemma doOnce_facts:
  assumes "doOnce env m np c = (r, np', c1)"
  shows "Values np' = Values np"
    and "heap c1 = heap c" and "tokens c1 = tokens c" and "login_state c1 = login_state c"
    and "exchanges c1 = exchanges c \<or> (\<exists>req. exchanges c1 = exchanges c @ [(req, server env (exchanges c) req)])"
  using assms unfolding doOnce_def buildRequest_def login_state_def
  by (auto simp: Let_def split: if_splits prod.splits sum.splits Reply.splits option.splits)

lemma stable_extends: "stable extends"
  unfolding stable_def extends_def
  using doOnce_facts(5) by (auto; fastforce)

lemma Login_loop_cases:
  assumes "Login_loop env post getTok user pass retry attempt lastErr c = Some (res, c')"
    and "attempt < retry"
  obtains (tokfail) err where "getTok ''login'' (InvalidateToken ''login'' c) = Some (Inl err, c')" "res = (None, Some err)"
  | (postfail) tok c1 pr where "getTok ''login'' (InvalidateToken ''login'' c) = Some (Inr tok, c1)"
      "post (loginParams user pass tok) c1 = Some (pr, c')" "snd res \<noteq> None"
  | (success) tok c1 c2 resp out where "getTok ''login'' (InvalidateToken ''login'' c) = Some (Inr tok, c1)"
      "post (loginParams user pass tok) c1 = Some ((Some resp, None), c2)"
      "login_object (Raw resp) = Inr out" "ToLower env (Result out) = ''success''" "res = (Some out, None)"
      "c' = InvalidateAllTokens (c2\<lparr>loginUser := user, loginPass := pass, loggedInUser := LgName out\<rparr>)"
  | (again) tok c1 pr c2 e where "getTok ''login'' (InvalidateToken ''login'' c) = Some (Inr tok, c1)"
      "post (loginParams user pass tok) c1 = Some (pr, c2)"
      "Login_loop env post getTok user pass retry (attempt + 1) (Some e) c2 = Some (res, c')"
  using Login_loop_shape[OF assms] by (elim disjE exE conjE) blast+

lemma Login_loop_preserves:
  assumes st: "stable R"
    and lg: "\<And>c u p l. R c (c\<lparr>loginUser := u, loginPass := p, loggedInUser := l\<rparr>)"
    and po: "\<And>p. preserves R (post p)" and gt: "\<And>t. preserves R (getTok t)"
  shows "Login_loop env post getTok user pass retry attempt lastErr c = Some (res, c') \<Longrightarrow> R c c'"
proof (induction "nat (retry - attempt)" arbitrary: attempt lastErr c rule: less_induct)
  case less
  note run = less.prems
  note tr = stableD(2)[OF st]
  show ?case
  proof (cases "attempt < retry")
    case False
    with run show ?thesis by (simp add: Login_loop.simps stableD(1)[OF st])
  next
    case lt: True
    have R0: "R c (InvalidateToken ''login'' c)"
      unfolding InvalidateToken_def by (rule stableD(3)[OF st])
    from run lt show ?thesis
    proof (cases rule: Login_loop_cases)
      case (tokfail err)
      from R0 preservesD[OF gt tokfail(1)] show ?thesis by (rule tr)
    next
      case (postfail tok c1 pr)
      show ?thesis
        by (rule tr[OF R0 tr[OF preservesD[OF gt postfail(1)] preservesD[OF po postfail(2)]]])
    next
      case (success tok c1 c2 resp out)
      have R2: "R c c2"
        by (rule tr[OF R0 tr[OF preservesD[OF gt success(1)] preservesD[OF po success(2)]]])
      have "R c2 c'" unfolding success(6) InvalidateAllTokens_def
        by (rule tr[OF lg stableD(3)[OF st]])
      with R2 show ?thesis by (rule tr)
    next
      case (again tok c1 pr c2 e)
      have R2: "R c c2"
        by (rule tr[OF R0 tr[OF preservesD[OF gt again(1)] preservesD[OF po again(2)]]])
      have "R c2 c'" using less.hyps[OF _ again(3)] lt by simp
      with R2 show ?thesis by (rule tr)
    qed
  qed
qed

lemma nested_Login_preserves:
  assumes st: "stable R"
    and lg: "\<And>c u p l. R c (c\<lparr>loginUser := u, loginPass := p, loggedInUser := l\<rparr>)"
  shows "preserves R (nested_Login env n user pass)"
proof (induction n arbitrary: user pass)
  case 0
  show ?case by (simp add: preserves_def)
next
  case (Suc n)
  have rl: "preserves R (Relogin_with (nested_Login env n))"
    by (rule Relogin_with_preserves[OF st Suc])
  have po: "\<And>p. preserves R (Post_with env (Relogin_with (nested_Login env n)) p)"
    unfolding Post_with_def by (rule do_preserves[OF st rl])
  have gt: "\<And>t. preserves R (GetToken_with env (Post_with env (Relogin_with (nested_Login env n))) t)"
    by (rule GetToken_with_preserves[OF st po])
  show ?case
    unfolding preserves_def nested_Login.simps Login_with_def
    using Login_loop_preserves[where post = "Post_with env (Relogin_with (nested_Login env n))"
        and getTok = "GetToken_with env (Post_with env (Relogin_with (nested_Login env n)))", OF st lg po gt]
    by blast
qed

lemma ops_preserve:
  assumes st: "stable R"
    and lg: "\<And>c u p l. R c (c\<lparr>loginUser := u, loginPass := p, loggedInUser := l\<rparr>)"
  shows "preserves R (Relogin env n)" and "preserves R (Post env n p)" and "preserves R (Get env n p)"
    and "preserves R (GetToken env n t)" and "preserves R (Login env n user pass)"
proof -
  show rl: "preserves R (Relogin env n)"
    unfolding Relogin_def by (rule Relogin_with_preserves[OF st nested_Login_preserves[OF st lg]])
  show po: "preserves R (Post env n p)" for p
    unfolding Post_def Post_with_def by (rule do_preserves[OF st rl])
  show "preserves R (Get env n p)"
    unfolding Get_def Get_with_def by (rule do_preserves[OF st rl])
  show "preserves R (GetToken env n t)"
    unfolding GetToken_def by (rule GetToken_with_preserves[OF st po])
  show "preserves R (Login env n user pass)"
    using nested_Login_preserves[OF st lg, of env "Suc n"]
    by (simp add: Login_def Post_def GetToken_def Relogin_def)
qed

lemma extendsD: "extends c c' \<Longrightarrow> \<exists>new. exchanges c' = exchanges c @ new"
  by (simp add: extends_def)

lemma stable_kept_unless_login: "stable (kept_unless_login env)"
proof -
  have tr: "kept_unless_login env a d" if ab: "kept_unless_login env a b" and bd: "kept_unless_login env b d"
    for a b d :: "'a World_scheme"
  proof -
    from ab obtain n1 where n1: "exchanges b = exchanges a @ n1" by (auto simp: kept_unless_login_def extends_def)
    from bd obtain n2 where n2: "exchanges d = exchanges b @ n2" by (auto simp: kept_unless_login_def extends_def)
    show ?thesis using ab bd unfolding kept_unless_login_def extends_def n1 n2 by auto
  qed
  have once: "kept_unless_login env c c'" if "doOnce env' m np c = (r, np', c')"
    for env' m np r np' and c c' :: "'a World_scheme"
    using doOnce_facts(4,5)[OF that] unfolding kept_unless_login_def extends_def by auto
  show ?thesis
    unfolding stable_def
    apply (intro conjI allI impI)
        apply (simp add: kept_unless_login_def extends_def)
       apply (erule (1) tr)
      apply (simp add: kept_unless_login_def extends_def login_state_def)
     apply (simp add: kept_unless_login_def extends_def login_state_def)
    apply (erule once)
    done
qed

lemma values_Get_Encode [simp]: "values_Get (values_Encode v) k = values_Get v k"
  by (simp add: values_Get_def values_Encode_def split: option.splits list.splits)

lemma values_Get_first [simp]: "values_Get (first_values v) k = values_Get v k"
  by (simp add: values_Get_def first_values_def split: option.splits list.splits)

lemma buildRequest_POST:
  assumes "buildRequest c POST np = (Inr req, np', st')"
  shows "httpMethod req = POST" and "request_field req k = values_Get (Values np) k"
    and "Values np k \<noteq> None \<Longrightarrow> query req k = None"
proof -
  show "httpMethod req = POST" and "request_field req k = values_Get (Values np) k"
    using assms unfolding buildRequest_def request_field_def
    by (auto simp: Let_def split: if_splits prod.splits sum.splits)
  show "Values np k \<noteq> None \<Longrightarrow> query req k = None"
    using assms unfolding buildRequest_def
    by (auto simp: Let_def values_Encode_def split: if_splits prod.splits sum.splits)
qed

lemma doOnce_ok:
  assumes "doOnce env m np c = ((Some resp, e), np', c1)"
  shows "\<exists>req st'. buildRequest c m np = (Inr req, np', st') \<and> exchanges c1 = exchanges c @ [(req, Http resp)]
            \<and> server env (exchanges c) req = Http resp"
  using assms unfolding doOnce_def
  by (auto simp: Let_def split: if_splits prod.splits sum.splits Reply.splits option.splits)

lemma do_loop_last:
  assumes rl: "preserves extends relogin"
  shows "do_loop env relogin POST maxR attempt np lastErr c = Some ((Some resp, None), c') \<Longrightarrow>
         \<exists>ex req. exchanges c' = exchanges c @ ex @ [(req, Http resp)] \<and> httpMethod req = POST \<and>
           (\<forall>k. request_field req k = values_Get (Values np) k)"
proof (induction "nat (maxR + 1 - attempt)" arbitrary: attempt np lastErr c rule: less_induct)
  case less
  note run = less.prems
  show ?case
  proof (cases "attempt \<le> maxR")
    case False
    with run show ?thesis by (simp add: do_loop.simps)
  next
    case le: True
    obtain r np' c1 where once: "doOnce env POST np c = (r, np', c1)" by (cases "doOnce env POST np c") auto
    from run le once show ?thesis
    proof (cases rule: do_loop_cases)
      case direct
      then have r: "r = (Some resp, None)" by (cases r) auto
      from doOnce_ok[OF once[unfolded r]] obtain req st' where
        b: "buildRequest c POST np = (Inr req, np', st')" and e: "exchanges c1 = exchanges c @ [(req, Http resp)]"
        by blast
      show ?thesis using buildRequest_POST(1,2)[OF b] e direct(1) by auto
    next
      case (relogin_failed err2)
      then show ?thesis by simp
    next
      case (replay c2 e)
      from doOnce_facts(5)[OF once] obtain n1 where n1: "exchanges c1 = exchanges c @ n1" by auto
      from preservesD[OF rl replay(1)] obtain n2 where n2: "exchanges c2 = exchanges c1 @ n2"
        by (auto simp: extends_def)
      from less.hyps[OF _ replay(3)] replay(2) obtain ex req where
        "exchanges c' = exchanges c2 @ ex @ [(req, Http resp)]" "httpMethod req = POST"
        "\<forall>k. request_field req k = values_Get (Values np') k" by auto
      then show ?thesis using n1 n2 doOnce_facts(1)[OF once] by auto
    qed
  qed
qed

lemma Post_with_last_reply:
  assumes rl: "preserves extends relogin"
  shows "last_reply env (Post_with env relogin)"
  unfolding last_reply_def Post_with_def do_def
  using do_loop_last[OF rl] by (auto split: sum.splits)

lemma injectAssert_other:
  "k \<noteq> ''assertuser'' \<Longrightarrow> Values (injectAssert env c opt np) k = Values np k"
  "Files (injectAssert env c opt np) = Files np"
  by (auto simp: injectAssert_def set_field_def values_Set_def Let_def)

lemma values_Get_cong: "v k = v' k \<Longrightarrow> values_Get v k = values_Get v' k"
  by (simp add: values_Get_def)

lemma loginParams_action:
  assumes "normalizeParams (loginParams user pass tok) = Inr np"
  shows "values_Get (Values (injectAssert env c opt np)) ''action'' = ''login''"
proof -
  have "Values np ''action'' = Some [''login'']"
    using assms
    by (auto simp: normalizeParams_def loginParams_def set_field_def values_Set_def defaults_def
        setDefaultIfMissing_def values_Get_def)
  moreover have "Values (injectAssert env c opt np) ''action'' = Values np ''action''"
    by (rule injectAssert_other) simp
  ultimately show ?thesis by (simp add: values_Get_def)
qed

lemma Login_loop_kept:
  assumes po: "\<And>p. preserves (kept_unless_login env) (post p)"
    and gt: "\<And>t. preserves (kept_unless_login env) (getTok t)"
    and lr: "last_reply env post"
  shows "Login_loop env post getTok user pass retry attempt lastErr c = Some (res, c') \<Longrightarrow> kept_unless_login env c c'"
proof (induction "nat (retry - attempt)" arbitrary: attempt lastErr c rule: less_induct)
  case less
  note run = less.prems
  note st = stable_kept_unless_login
  note tr = stableD(2)[OF st]
  show ?case
  proof (cases "attempt < retry")
    case False
    with run show ?thesis by (simp add: Login_loop.simps stableD(1)[OF st])
  next
    case lt: True
    have R0: "kept_unless_login env c (InvalidateToken ''login'' c)"
      unfolding InvalidateToken_def by (rule stableD(3)[OF st])
    from run lt show ?thesis
    proof (cases rule: Login_loop_cases)
      case (tokfail err)
      from R0 preservesD[OF gt tokfail(1)] show ?thesis by (rule tr)
    next
      case (postfail tok c1 pr)
      show ?thesis
        by (rule tr[OF R0 tr[OF preservesD[OF gt postfail(1)] preservesD[OF po postfail(2)]]])
    next
      case (success tok c1 c2 resp out)
      have R1: "kept_unless_login env c c1"
        by (rule tr[OF R0 preservesD[OF gt success(1)]])
      from lr success(2) obtain ex req np where
        np: "normalizeParams (loginParams user pass tok) = Inr np" and
        ex: "exchanges c2 = exchanges c1 @ ex @ [(req, Http resp)]" and
        rf: "\<forall>k. request_field req k = values_Get (Values (injectAssert env c1 \<lparr>skipAssert = False, skipRelogin = False\<rparr> np)) k"
        unfolding last_reply_def by blast
      have "login_succeeded env (req, Http resp)"
        using rf loginParams_action[OF np] success(3,4) by (simp add: login_succeeded_def)
      then have "kept_unless_login env c1 c'"
        unfolding kept_unless_login_def extends_def success(6) InvalidateAllTokens_def
        using ex by simp
      with R1 show ?thesis by (rule tr)
    next
      case (again tok c1 pr c2 e)
      have R2: "kept_unless_login env c c2"
        by (rule tr[OF R0 tr[OF preservesD[OF gt again(1)] preservesD[OF po again(2)]]])
      have "kept_unless_login env c2 c'" using less.hyps[OF _ again(3)] lt by simp
      with R2 show ?thesis by (rule tr)
    qed
  qed
qed

lemma extends_login_step: "extends c (c\<lparr>loginUser := u, loginPass := p, loggedInUser := l\<rparr>)"
  by (simp add: extends_def)

lemma nested_Login_kept:
  "preserves (kept_unless_login env)
     (nested_Login env n user pass :: 'a World_scheme \<Rightarrow> ((LoginResult option \<times> Err option) \<times> 'a World_scheme) option)"
proof (induction n arbitrary: user pass)
  case 0
  show ?case by (simp add: preserves_def)
next
  case (Suc n)
  note st = stable_kept_unless_login
  define rl :: "'a World_scheme \<Rightarrow> (Err option \<times> 'a World_scheme) option"
    where "rl = Relogin_with (nested_Login env n)"
  have rl: "preserves (kept_unless_login env) rl"
    unfolding rl_def by (rule Relogin_with_preserves[where login = "nested_Login env n", OF st Suc])
  have po: "\<And>p. preserves (kept_unless_login env) (Post_with env rl p)"
    unfolding Post_with_def by (rule do_preserves[OF st rl])
  have gt: "\<And>t. preserves (kept_unless_login env) (GetToken_with env (Post_with env rl) t)"
    by (rule GetToken_with_preserves[OF st po])
  have "preserves extends rl"
    unfolding rl_def
    by (rule Relogin_with_preserves[OF stable_extends nested_Login_preserves[OF stable_extends extends_login_step]])
  then have lr: "last_reply env (Post_with env rl)" by (rule Post_with_last_reply)
  show ?case
    unfolding preserves_def nested_Login.simps Login_with_def rl_def[symmetric]
    using Login_loop_kept[where post = "Post_with env rl" and getTok = "GetToken_with env (Post_with env rl)", OF po gt lr]
    by blast
qed

lemma ops_kept:
  shows "preserves (kept_unless_login env) (Relogin env n)" and "preserves (kept_unless_login env) (Post env n p)"
    and "preserves (kept_unless_login env) (Get env n p)" and "preserves (kept_unless_login env) (GetToken env n t)"
    and "preserves (kept_unless_login env) (Login env n user pass)"
proof -
  note st = stable_kept_unless_login
  show rl: "preserves (kept_unless_login env) (Relogin env n)"
    unfolding Relogin_def by (rule Relogin_with_preserves[OF st nested_Login_kept])
  show po: "preserves (kept_unless_login env) (Post env n p)" for p
    unfolding Post_def Post_with_def by (rule do_preserves[OF st rl])
  show "preserves (kept_unless_login env) (Get env n p)"
    unfolding Get_def Get_with_def by (rule do_preserves[OF st rl])
  show "preserves (kept_unless_login env) (GetToken env n t)"
    unfolding GetToken_def by (rule GetToken_with_preserves[OF st po])
  show "preserves (kept_unless_login env) (Login env n user pass)"
    using nested_Login_kept[of env "Suc n"]
    by (simp add: Login_def Post_def GetToken_def Relogin_def)
qed

lemma heap_ops_frame:
  "\<exists>h. heap_store a k v c = c\<lparr>heap := h\<rparr>"
  "\<exists>h. snd (heap_alloc es c) = c\<lparr>heap := h\<rparr>"
  by (auto simp: heap_store_def heap_alloc_def)

lemma copy_entries_frame: "\<exists>h. copy_entries p p2 c = c\<lparr>heap := h\<rparr>"
proof -
  have "\<exists>h. fold (\<lambda>(k, v). heap_store p2 k v) xs c = c\<lparr>heap := h\<rparr>" for xs
  proof (induction xs arbitrary: c)
    case Nil
    show ?case by (rule exI[of _ "heap c"]) simp
  next
    case (Cons x xs)
    obtain k v where x: "x = (k, v)" by (cases x)
    obtain h1 where h1: "heap_store p2 k v c = c\<lparr>heap := h1\<rparr>" using heap_ops_frame(1) by blast
    from Cons[of "c\<lparr>heap := h1\<rparr>"] show ?case by (auto simp: x h1)
  qed
  then show ?thesis by (simp add: copy_entries_def)
qed

lemma PostWithToken_loop_cases:
  assumes "PostWithToken_loop env post getTok tokenType tokenName retry noCache p2 attempt lastErr c = Some (res, c')"
    and "attempt < retry"
    and "c0 = (if attempt > 0 \<or> noCache then InvalidateToken tokenType c else c)"
  obtains (tokfail) err where "getTok tokenType c0 = Some (Inl err, c')" "res = (None, Some err)"
  | (final) tok c1 where "getTok tokenType c0 = Some (Inr tok, c1)"
      "post (PMapAny (heap_load (heap_store p2 tokenName (AString tok) c1) p2))
            (heap_store p2 tokenName (AString tok) c1) = Some (res, c')"
      "token_failure env res = None"
  | (again) tok c1 pr c3 e where "getTok tokenType c0 = Some (Inr tok, c1)"
      "post (PMapAny (heap_load (heap_store p2 tokenName (AString tok) c1) p2))
            (heap_store p2 tokenName (AString tok) c1) = Some (pr, c3)"
      "token_failure env pr = Some e"
      "PostWithToken_loop env post getTok tokenType tokenName retry noCache p2 (attempt + 1) (Some e) c3 = Some (res, c')"
  using PostWithToken_loop_shape[OF assms] by (elim disjE exE conjE) (simp, blast, fastforce)

lemma PostWithToken_loop_preserves:
  assumes st: "stable R" and hs: "\<And>c v. R c (heap_store p2 tokenName v c)"
    and po: "\<And>p. preserves R (post p)" and gt: "\<And>t. preserves R (getTok t)"
  shows "PostWithToken_loop env post getTok tokenType tokenName retry noCache p2 attempt lastErr c = Some (res, c')
         \<Longrightarrow> R c c'"
proof (induction "nat (retry - attempt)" arbitrary: attempt lastErr c rule: less_induct)
  case less
  note run = less.prems
  note tr = stableD(2)[OF st]
  show ?case
  proof (cases "attempt < retry")
    case False
    with run show ?thesis by (simp add: PostWithToken_loop.simps stableD(1)[OF st])
  next
    case lt: True
    define c0 where "c0 = (if attempt > 0 \<or> noCache then InvalidateToken tokenType c else c)"
    have R0: "R c c0"
      unfolding c0_def InvalidateToken_def using stableD(1,3)[OF st] by simp
    from run lt c0_def show ?thesis
    proof (cases rule: PostWithToken_loop_cases)
      case (tokfail err)
      from R0 preservesD[OF gt tokfail(1)] show ?thesis by (rule tr)
    next
      case (final tok c1)
      show ?thesis
        by (rule tr[OF R0 tr[OF preservesD[OF gt final(1)] tr[OF hs preservesD[OF po final(2)]]]])
    next
      case (again tok c1 pr c3 e)
      have R3: "R c c3"
        by (rule tr[OF R0 tr[OF preservesD[OF gt again(1)] tr[OF hs preservesD[OF po again(2)]]]])
      have "R c3 c'" using less.hyps[OF _ again(4)] lt by simp
      with R3 show ?thesis by (rule tr)
    qed
  qed
qed

lemma PostWithToken_with_preserves:
  assumes st: "stable R" and hp: "\<And>c h. R c (c\<lparr>heap := h\<rparr>)"
    and po: "\<And>p. preserves R (post p)" and gt: "\<And>t. preserves R (getTok t)"
  shows "preserves R (PostWithToken_with env post getTok tokenType p opt)"
proof -
  have "R c c'" if run: "PostWithToken_with env post getTok tokenType p opt c = Some (r, c')" for c r c'
  proof -
    obtain p2 c1 where al: "heap_alloc [] c = (p2, c1)" by (cases "heap_alloc [] c")
    have "R c c1" using heap_ops_frame(2)[of "[]" c] al hp by auto
    moreover have "R c1 (copy_entries p p2 c1)" using copy_entries_frame[of p p2 c1] hp by auto
    moreover have "R (copy_entries p p2 c1) c'"
    proof -
      have hs: "R c1 (heap_store p2 k v c1)" for c1 k v
        using heap_ops_frame(1)[of p2 k v c1] hp by auto
      show ?thesis
        using run al PostWithToken_loop_preserves[where post = post and getTok = getTok, OF st hs po gt]
        by (simp add: PostWithToken_with_def Let_def)
    qed
    ultimately show ?thesis using stableD(2)[OF st] by blast
  qed
  then show ?thesis by (simp add: preserves_def)
qed

lemma kept_heap_step: "kept_unless_login env c (c\<lparr>heap := h\<rparr>)"
  by (simp add: kept_unless_login_def extends_def login_state_def)

lemma PostWithToken_kept: "preserves (kept_unless_login env) (PostWithToken env n tokenType p opt)"
  unfolding PostWithToken_def
  by (rule PostWithToken_with_preserves[where post = "Post env n" and getTok = "GetToken env n",
        OF stable_kept_unless_login kept_heap_step ops_kept(2) ops_kept(4)])

lemma Login_loop_success:
  "Login_loop env post getTok user pass retry attempt lastErr c = Some ((res, None), c') \<Longrightarrow>
   \<exists>out c2. res = Some out \<and> ToLower env (Result out) = ''success'' \<and>
     c' = InvalidateAllTokens (c2\<lparr>loginUser := user, loginPass := pass, loggedInUser := LgName out\<rparr>)"
proof (induction "nat (retry - attempt)" arbitrary: attempt lastErr c rule: less_induct)
  case less
  note run = less.prems
  show ?case
  proof (cases "attempt < retry")
    case False
    with run show ?thesis by (simp add: Login_loop.simps)
  next
    case lt: True
    from run lt show ?thesis
    proof (cases rule: Login_loop_cases)
      case (again tok c1 pr c2 e)
      show ?thesis using less.hyps[OF _ again(3)] lt by simp
    qed auto
  qed
qed

lemma stable_heap_kept: "stable (heap_kept L)"
proof -
  have "take L (heap c') = take L (heap c)" if "doOnce env m np c = (r, np', c')"
    for env m np r np' and c c' :: "'a World_scheme"
    using doOnce_facts(2)[OF that] by simp
  then show ?thesis unfolding stable_def heap_kept_def by auto
qed

lemma heap_kept_login_step: "heap_kept L c (c\<lparr>loginUser := u, loginPass := p, loggedInUser := l\<rparr>)"
  by (simp add: heap_kept_def)

lemma heap_kept_store: "L \<le> a \<Longrightarrow> heap_kept L c (heap_store a k v c)"
  by (simp add: heap_kept_def heap_store_def)

lemma heap_kept_copy: "L \<le> p2 \<Longrightarrow> heap_kept L c (copy_entries p p2 c)"
proof -
  assume L: "L \<le> p2"
  have "take L (heap (fold (\<lambda>(k, v). heap_store p2 k v) xs c)) = take L (heap c)" for xs
    by (induction xs arbitrary: c) (auto simp: heap_store_def L)
  then show ?thesis by (simp add: heap_kept_def copy_entries_def)
qed

section \<open>Logout\<close>

text \<open>
  C1, as amended. \<open>Logout\<close> performs the logout write with a csrf token, on a fresh map
  holding \<open>action=logout\<close>. When that write returns no error, \<open>Logout\<close> returns no error
  and leaves the world of the write with the current user, the stored credentials and
  every cached token cleared. When the write returns an error, \<open>Logout\<close> returns that
  error and leaves the world as the write left it: it clears nothing itself, and the
  login state is the one before the call unless a login succeeded during the write.
\<close>

theorem Logout_returns_error_or_clears:
  assumes "PostWithToken env n ''csrf'' (Some (length (heap c))) None
             (c\<lparr>heap := heap c @ [[(''action'', AString ''logout'')]]\<rparr>) = Some ((r, e), c1)"
  shows "case e of
           None \<Rightarrow>
             Logout env n c =
               Some (None, c1\<lparr>loggedInUser := [], loginUser := [], loginPass := [], tokens := Map.empty\<rparr>)
         | Some err \<Rightarrow> Logout env n c = Some (Some err, c1) \<and> kept_unless_login env c c1"
proof -
  have k: "kept_unless_login env c c1"
    using stableD(2)[OF stable_kept_unless_login kept_heap_step preservesD[OF PostWithToken_kept assms]] .
  show ?thesis
    using assms k
    by (cases e) (simp_all add: Logout_def Logout_with_def heap_alloc_def InvalidateAllTokens_def)
qed

lemma logout_write_serverOk_run:
  "(case PostWithToken serverOk 0 ''csrf'' (Some (length (heap loggedIn))) None
           (loggedIn\<lparr>heap := heap loggedIn @ [[(''action'', AString ''logout'')]]\<rparr>) of
      None \<Rightarrow> None
    | Some ((r, e), c) \<Rightarrow> Some (map_option Error_text e)) = Some None"
  by code_simp

lemma logout_write_serverDown_run:
  "(case PostWithToken serverDown 0 ''csrf'' (Some (length (heap loggedIn))) None
           (loggedIn\<lparr>heap := heap loggedIn @ [[(''action'', AString ''logout'')]]\<rparr>) of
      None \<Rightarrow> None
    | Some ((r, e), c) \<Rightarrow> Some (map_option Error_text e)) = Some (Some ''connection refused'')"
  by code_simp

lemma Logout_serverDown_run:
  "(case Logout serverDown 0 loggedIn of
      None \<Rightarrow> None
    | Some (e, c) \<Rightarrow> Some (map_option Error_text e, loggedInUser c, loginUser c, loginPass c, tokens c ''csrf'')) =
   Some (Some ''connection refused'', ''UserA'', ''UserA'', ''pass'', Some ''CSRF_0'')"
  by code_simp

theorem Logout_returns_error_or_clears_witness:
  "(fst (the (Logout serverOk 0 loggedIn)) = None \<and>
    loggedInUser (snd (the (Logout serverOk 0 loggedIn))) = [] \<and>
    loginUser (snd (the (Logout serverOk 0 loggedIn))) = [] \<and>
    loginPass (snd (the (Logout serverOk 0 loggedIn))) = [] \<and>
    tokens (snd (the (Logout serverOk 0 loggedIn))) = Map.empty) \<and>
   (map_option Error_text (fst (the (Logout serverDown 0 loggedIn))) = Some ''connection refused'' \<and>
    kept_unless_login serverDown loggedIn (snd (the (Logout serverDown 0 loggedIn))))"
proof -
  from logout_write_serverOk_run obtain r c1 where
    ok: "PostWithToken serverOk 0 ''csrf'' (Some (length (heap loggedIn))) None
           (loggedIn\<lparr>heap := heap loggedIn @ [[(''action'', AString ''logout'')]]\<rparr>) = Some ((r, None), c1)"
    by (auto split: option.splits prod.splits)
  from logout_write_serverDown_run obtain r' err c2 where
    down: "PostWithToken serverDown 0 ''csrf'' (Some (length (heap loggedIn))) None
           (loggedIn\<lparr>heap := heap loggedIn @ [[(''action'', AString ''logout'')]]\<rparr>) = Some ((r', Some err), c2)"
    and msg: "Error_text err = ''connection refused''"
    by (auto split: option.splits prod.splits)
  from Logout_returns_error_or_clears[OF ok] Logout_returns_error_or_clears[OF down] msg
  show ?thesis by simp
qed

text \<open>
  The claim as stated fails when the write fails: against a server that cannot be
  reached, \<open>Logout\<close> returns the transport error, and the current user, the stored
  credentials and the cached csrf token are all still there.
\<close>

theorem Logout_keeps_state_on_failure_counterexample:
  "map_option Error_text (fst (the (Logout serverDown 0 loggedIn))) = Some ''connection refused'' \<and>
   loggedInUser (snd (the (Logout serverDown 0 loggedIn))) = ''UserA'' \<and>
   loginUser (snd (the (Logout serverDown 0 loggedIn))) = ''UserA'' \<and>
   loginPass (snd (the (Logout serverDown 0 loggedIn))) = ''pass'' \<and>
   tokens (snd (the (Logout serverDown 0 loggedIn))) ''csrf'' = Some ''CSRF_0''"
  using Logout_serverDown_run by (auto split: option.splits)

section \<open>The defaults of the parameters\<close>

lemma setDefaultIfMissing_same:
  "setDefaultIfMissing v k d k = (if values_Get v k = [] then Some [d] else v k)"
  by (simp add: setDefaultIfMissing_def values_Set_def)

lemma setDefaultIfMissing_other:
  "k' \<noteq> k \<Longrightarrow> setDefaultIfMissing v k d k' = v k'"
  by (simp add: setDefaultIfMissing_def values_Set_def)

lemma values_Get_setDefault_other:
  "k' \<noteq> k \<Longrightarrow> values_Get (setDefaultIfMissing v k d) k' = values_Get v k'"
  by (simp add: values_Get_def setDefaultIfMissing_other)

lemma defaults_at:
  assumes "(k, d) \<in> set default_fields"
  shows "defaults v k = (if values_Get v k = [] then Some [d] else v k)"
proof -
  from assms consider "k = ''action''" "d = ''query''" | "k = ''format''" "d = ''json''"
    | "k = ''formatversion''" "d = ''2''" | "k = ''errorformat''" "d = ''plaintext''"
    by (auto simp: default_fields_def)
  then show ?thesis
  proof cases
    case 1
    then show ?thesis
      by (simp add: defaults_def setDefaultIfMissing_same setDefaultIfMissing_other values_Get_setDefault_other)
  next
    case 2
    then show ?thesis
      by (simp add: defaults_def setDefaultIfMissing_same setDefaultIfMissing_other values_Get_setDefault_other)
  next
    case 3
    then show ?thesis
      by (simp add: defaults_def setDefaultIfMissing_same setDefaultIfMissing_other values_Get_setDefault_other)
  next
    case 4
    then show ?thesis
      by (simp add: defaults_def setDefaultIfMissing_same setDefaultIfMissing_other values_Get_setDefault_other)
  qed
qed

lemma defaults_other:
  assumes "map_of default_fields k = None"
  shows "defaults v k = v k"
proof -
  from assms have "k \<noteq> ''action''" "k \<noteq> ''format''" "k \<noteq> ''formatversion''" "k \<noteq> ''errorformat''"
    by (auto simp: default_fields_def split: if_splits)
  then show ?thesis by (simp add: defaults_def setDefaultIfMissing_other)
qed

text \<open>
  C2, as amended. Normalization first encodes the fields of the caller
  (\<open>collectParams\<close>) and then applies the defaults. A field with a default gets the
  default exactly when its first value after the encoding is empty, that is when the
  field is absent or its value is the empty string; a present non-empty value is kept.
  Every other field, and the attachments, are as the encoding left them.
\<close>

theorem normalizeParams_applies_defaults:
  assumes "collectParams p = Inr pre"
  shows "normalizeParams p =
           Inr (pre\<lparr>Values := (\<lambda>k. case map_of default_fields k of
                                        None \<Rightarrow> Values pre k
                                      | Some d \<Rightarrow> if values_Get (Values pre) k = [] then Some [d]
                                                  else Values pre k)\<rparr>)"
proof -
  have "defaults (Values pre) k =
          (case map_of default_fields k of
             None \<Rightarrow> Values pre k
           | Some d \<Rightarrow> if values_Get (Values pre) k = [] then Some [d] else Values pre k)" for k
  proof (cases "map_of default_fields k")
    case None
    then show ?thesis by (simp add: defaults_other)
  next
    case (Some d)
    then have "(k, d) \<in> set default_fields" by (rule map_of_SomeD)
    from defaults_at[OF this] Some show ?thesis by simp
  qed
  then have "defaults (Values pre) =
          (\<lambda>k. case map_of default_fields k of
             None \<Rightarrow> Values pre k
           | Some d \<Rightarrow> if values_Get (Values pre) k = [] then Some [d] else Values pre k)"
    by (rule ext)
  with assms show ?thesis by (simp add: normalizeParams_def)
qed

theorem normalizeParams_applies_defaults_witness:
  "map_sum Error_text (\<lambda>np. (Values np ''action'', Values np ''format'', Values np ''title''))
     (normalizeParams (PMapAny [(''action'', AString ''edit''), (''title'', AString ''Sandbox'')])) =
   Inr (Some [''edit''], Some [''json''], Some [''Sandbox''])"
proof -
  have "collectParams (PMapAny [(''action'', AString ''edit''), (''title'', AString ''Sandbox'')]) =
          Inr (addAll \<lparr>Values = Map.empty, Files = []\<rparr>
                 [(''action'', AString ''edit''), (''title'', AString ''Sandbox'')])"
    by simp
  from normalizeParams_applies_defaults[OF this] show ?thesis
    by (simp add: default_fields_def set_field_def values_Set_def values_Get_def)
qed

text \<open>
  The claim as stated fails for a field that the caller supplies with an empty
  encoding: the empty string for \<open>format\<close> is present after the encoding and is
  overwritten with \<open>json\<close>, and the value \<open>false\<close> for \<open>action\<close> is left out by the encoding
  and replaced by \<open>query\<close>.
\<close>

theorem defaults_overwrite_empty_value_counterexample:
  "map_sum Error_text (\<lambda>np. Values np ''format'')
     (collectParams (PMapAny [(''format'', AString []), (''action'', ABool False)])) = Inr (Some [[]]) \<and>
   map_sum Error_text (\<lambda>np. (Values np ''format'', Values np ''action''))
     (normalizeParams (PMapAny [(''format'', AString []), (''action'', ABool False)])) =
   Inr (Some [''json''], Some [''query''])"
  by (simp add: normalizeParams_def defaults_def setDefaultIfMissing_def set_field_def values_Set_def
      values_Get_def)

section \<open>Concurrent callers and the coalescing of fetches\<close>














lemma cachedToken_stored [simp]:
  "cachedToken (c\<lparr>tokens := (tokens c)(tokenType \<mapsto> tok)\<rparr>) tokenType = tok"
  by (simp add: cachedToken_def)












section \<open>The body of a write and the preset query\<close>














section \<open>PostWithToken and the caller's map\<close>

text \<open>
  C10. \<open>PostWithToken\<close> does not change any map the heap held before the call, the
  parameter map of the caller among them: the token is written to a copy at a fresh
  address.
\<close>

theorem PostWithToken_keeps_caller_maps:
  assumes "PostWithToken env n tokenType p opt c = Some (res, c')"
  shows "take (length (heap c)) (heap c') = heap c"
proof -
  define L where "L = length (heap c)"
  define c1 where "c1 = c\<lparr>heap := heap c @ [[]]\<rparr>"
  note st = stable_heap_kept[of L]
  have al: "heap_alloc [] c = (L, c1)" by (simp add: heap_alloc_def L_def c1_def)
  have k1: "heap_kept L c c1" by (simp add: heap_kept_def c1_def L_def)
  have k2: "heap_kept L c1 (copy_entries p L c1)" by (rule heap_kept_copy) simp
  have po: "\<And>q. preserves (heap_kept L) (Post env n q)"
    by (rule ops_preserve(2)[OF st heap_kept_login_step])
  have gt: "\<And>t. preserves (heap_kept L) (GetToken env n t)"
    by (rule ops_preserve(4)[OF st heap_kept_login_step])
  have hs: "\<And>c v tn. heap_kept L c (heap_store L tn v c)" by (rule heap_kept_store) simp
  have k3: "heap_kept L (copy_entries p L c1) c'"
    using assms al
      PostWithToken_loop_preserves[where post = "Post env n" and getTok = "GetToken env n" and ?p2.0 = L, OF st hs po gt]
    by (simp add: PostWithToken_def PostWithToken_with_def Let_def)
  have "heap_kept L c c'" using stableD(2)[OF st] k1 k2 k3 by blast
  then show ?thesis by (simp add: heap_kept_def L_def)
qed

lemma edit_serverBadToken_run:
  "(case PostWithToken serverBadToken 0 ''csrf'' (Some 0) None editClient of
      None \<Rightarrow> None
    | Some ((r, e), c) \<Rightarrow> Some (map_option Error_text e, heap_load c 0, heap_load c 1)) =
   Some (None,
     [(''action'', AString ''edit''), (''title'', AString ''Sandbox''), (''text'', AString ''hello'')],
     [(''action'', AString ''edit''), (''title'', AString ''Sandbox''), (''text'', AString ''hello''),
      (''token'', AString ''CSRF_2'')])"
  by code_simp

theorem PostWithToken_keeps_caller_maps_witness:
  "take (length (heap editClient))
     (heap (snd (the (PostWithToken serverBadToken 0 ''csrf'' (Some 0) None editClient)))) = heap editClient \<and>
   heap_load (snd (the (PostWithToken serverBadToken 0 ''csrf'' (Some 0) None editClient))) 1 =
     [(''action'', AString ''edit''), (''title'', AString ''Sandbox''), (''text'', AString ''hello''),
      (''token'', AString ''CSRF_2'')]"
proof -
  from edit_serverBadToken_run obtain res c' where
    run: "PostWithToken serverBadToken 0 ''csrf'' (Some 0) None editClient = Some (res, c')"
    by (auto split: option.splits)
  from PostWithToken_keeps_caller_maps[OF run] run edit_serverBadToken_run show ?thesis
    by (auto split: option.splits prod.splits)
qed

end
